theory Spec2Isabelle
  imports Complex_Main "HOL-Library.AList"
begin

section \<open>Python values used by the engine\<close>

text \<open>
  A Python \<open>str\<close> is a sequence of Unicode code points; the preprocessor inspects
  code points (the Bangla block, ASCII letters and digits, whitespace) and \<open>len\<close>
  counts them, so text and terms are lists of code points. Document identifiers,
  dictionary keys and language hints are compared only for equality and are written
  as HOL strings. Python's \<open>float\<close> is modelled by the reals: rounding is outside
  the model.
\<close>

type_synonym ustr = "nat list"

type_synonym doc_id = string

definition u :: "string \<Rightarrow> ustr" where
  "u s = map of_char s"

datatype pyval = PNone | PInt int | PStr ustr

datatype py_error =
  ValueError | ZeroDivisionError | KeyError | FileNotFoundError | EOFError | UnpicklingError

type_synonym metadata = "(string \<times> pyval) list"

text \<open>
  A \<open>dict\<close> is an association list in insertion order: \<open>AList.update\<close> replaces the
  value of a key that is present and appends a new key at the end, as a Python
  assignment \<open>d[k] = v\<close> does. \<open>get_or d dflt k\<close> is \<open>d.get(k, dflt)\<close>, and also
  the value read by \<open>d[k]\<close> on a \<open>defaultdict\<close> whose factory yields \<open>dflt\<close>.
\<close>

definition get_or :: "('k \<times> 'v) list \<Rightarrow> 'v \<Rightarrow> 'k \<Rightarrow> 'v" where
  "get_or d dflt k = (case map_of d k of None \<Rightarrow> dflt | Some v \<Rightarrow> v)"

section \<open>InvertedIndex (src/indexing/build\_index.py)\<close>

record inverted_index =
  index :: "(ustr \<times> (doc_id \<times> nat) list) list"
  doc_lengths :: "(doc_id \<times> nat) list"
  doc_count :: nat
  avg_doc_length :: real
  term_doc_freq :: "(ustr \<times> nat) list"
  documents :: "(doc_id \<times> metadata) list"

text \<open>\<open>InvertedIndex.__init__\<close>\<close>

definition InvertedIndex_init :: inverted_index where
  "InvertedIndex_init =
     \<lparr>index = [], doc_lengths = [], doc_count = 0, avg_doc_length = 0,
      term_doc_freq = [], documents = []\<rparr>"

text \<open>
  The first loop of \<open>add_document\<close>: \<open>term_freq[token] += 1\<close> over the tokens, on a
  \<open>defaultdict(int)\<close>.
\<close>

fun count_terms :: "ustr list \<Rightarrow> (ustr \<times> nat) list \<Rightarrow> (ustr \<times> nat) list" where
  "count_terms [] tf = tf"
| "count_terms (t # ts) tf = count_terms ts (AList.update t (get_or tf 0 t + 1) tf)"

text \<open>
  The second loop: for every \<open>(term, freq)\<close> of \<open>term_freq.items()\<close>, append the
  posting to the term's list and increment the term's document frequency.
\<close>

fun add_postings :: "doc_id \<Rightarrow> (ustr \<times> nat) list \<Rightarrow> inverted_index \<Rightarrow> inverted_index" where
  "add_postings d [] idx = idx"
| "add_postings d ((t, f) # rest) idx =
     add_postings d rest
       (idx\<lparr>index := AList.update t (get_or (index idx) [] t @ [(d, f)]) (index idx),
            term_doc_freq := AList.update t (get_or (term_doc_freq idx) 0 t + 1) (term_doc_freq idx)\<rparr>)"

definition add_document :: "doc_id \<Rightarrow> ustr list \<Rightarrow> metadata \<Rightarrow> inverted_index \<Rightarrow> inverted_index" where
  "add_document d tokens md idx =
     (let idx1 = add_postings d (count_terms tokens []) idx
      in idx1\<lparr>doc_lengths := AList.update d (length tokens) (doc_lengths idx1),
              documents := AList.update d md (documents idx1),
              doc_count := doc_count idx1 + 1\<rparr>)"

definition finalize :: "inverted_index \<Rightarrow> inverted_index" where
  "finalize idx =
     (if doc_count idx > 0
      then idx\<lparr>avg_doc_length := real (sum_list (map snd (doc_lengths idx))) / real (doc_count idx)\<rparr>
      else idx)"

definition get_postings :: "inverted_index \<Rightarrow> ustr \<Rightarrow> (doc_id \<times> nat) list" where
  "get_postings idx t = get_or (index idx) [] t"

definition get_document_frequency :: "inverted_index \<Rightarrow> ustr \<Rightarrow> nat" where
  "get_document_frequency idx t = get_or (term_doc_freq idx) 0 t"

text \<open>
  A build phase: a sequence of \<open>add_document\<close> calls on a fresh index, each call a
  triple of document id, tokens and metadata.
\<close>

definition add_all :: "(doc_id \<times> ustr list \<times> metadata) list \<Rightarrow> inverted_index \<Rightarrow> inverted_index" where
  "add_all docs idx = foldl (\<lambda>i (d, toks, md). add_document d toks md i) idx docs"

definition build :: "(doc_id \<times> ustr list \<times> metadata) list \<Rightarrow> inverted_index" where
  "build docs = add_all docs InvertedIndex_init"

section \<open>DocumentPreprocessor (src/indexing/build\_index.py)\<close>

definition english_stopwords :: "ustr list" where
  "english_stopwords = map u
     [''a'', ''an'', ''and'', ''are'', ''as'', ''at'', ''be'', ''by'', ''for'', ''from'',
      ''has'', ''he'', ''in'', ''is'', ''it'', ''its'', ''of'', ''on'', ''that'', ''the'',
      ''to'', ''was'', ''will'', ''with'', ''this'', ''but'', ''they'', ''have'', ''had'',
      ''what'', ''when'', ''where'', ''who'', ''which'', ''why'', ''how'']"

text \<open>The Bangla stopwords of the source, each as its code points (U+0980 is 2432).\<close>

definition bangla_stopwords :: "ustr list" where
  "bangla_stopwords =
     [[2447, 2476, 2434], [2476, 2494], [2479, 2503], [2447, 2439], [2488, 2503, 2439],
      [2479, 2494], [2468, 2494], [2447, 2453], [2447, 2453, 2463, 2495],
      [2453, 2495, 2459, 2497], [2453, 2507, 2472], [2453, 2480, 2494],
      [2489, 2479, 2492], [2489, 2476, 2503], [2459, 2495, 2482], [2438, 2459, 2503],
      [2469, 2503, 2453, 2503], [2488, 2457, 2509, 2455, 2503],
      [2470, 2509, 2476, 2494, 2480, 2494], [2460, 2472, 2509, 2479],
      [2478, 2471, 2509, 2479, 2503], [2441, 2474, 2480], [2472, 2495, 2458, 2503],
      [2438, 2455, 2503], [2474, 2480, 2503], [2478, 2468], [2488, 2494, 2469, 2503],
      [2453, 2495, 2472, 2509, 2468, 2497], [2479, 2470, 2495], [2468, 2476, 2503],
      [2472, 2494], [2472, 2479, 2492], [2489, 2479, 2492, 2503, 2459, 2503],
      [2489, 2479, 2492, 2503, 2459, 2495, 2482], [2453, 2480, 2503, 2459, 2503],
      [2453, 2480, 2503, 2459, 2495, 2482], [2476, 2482, 2503, 2472], [2476, 2482, 2503],
      [2476, 2482, 2494], [2460, 2494, 2472, 2494], [2460, 2494, 2472, 2494, 2479, 2492],
      [2470, 2503, 2479, 2492], [2470, 2503, 2451, 2479, 2492, 2494],
      [2472, 2503, 2479, 2492], [2472, 2503, 2451, 2479, 2492, 2494]]"

text \<open>The character class of the Bangla block, U+0980 to U+09FF.\<close>

definition is_bangla_char :: "nat \<Rightarrow> bool" where
  "is_bangla_char c = (2432 \<le> c \<and> c \<le> 2559)"

text \<open>\<open>is_bangla\<close>: \<open>re.search\<close> finds a character of the Bangla block anywhere.\<close>

definition is_bangla :: "ustr \<Rightarrow> bool" where
  "is_bangla text = list_ex is_bangla_char text"

text \<open>
  Whitespace as \<open>\s\<close>, \<open>str.split()\<close> and \<open>str.strip()\<close> see it on a \<open>str\<close>: the code
  points for which \<open>str.isspace()\<close> holds.
\<close>

definition is_space :: "nat \<Rightarrow> bool" where
  "is_space c =
     ((9 \<le> c \<and> c \<le> 13) \<or> (28 \<le> c \<and> c \<le> 32) \<or> c = 133 \<or> c = 160 \<or> c = 5760
      \<or> (8192 \<le> c \<and> c \<le> 8202) \<or> c = 8232 \<or> c = 8233 \<or> c = 8239 \<or> c = 8287
      \<or> c = 12288)"

text \<open>The character class \<open>[a-zA-Z0-9]\<close>.\<close>

definition is_ascii_alnum :: "nat \<Rightarrow> bool" where
  "is_ascii_alnum c = ((48 \<le> c \<and> c \<le> 57) \<or> (65 \<le> c \<and> c \<le> 90) \<or> (97 \<le> c \<and> c \<le> 122))"

definition starts_with :: "ustr \<Rightarrow> ustr \<Rightarrow> bool" where
  "starts_with p cs = (take (length p) cs = p)"

text \<open>
  Whether \<open>http\S+|www\S+\<close> matches at the head of the text: the literal prefix,
  then at least one character that is not whitespace.
\<close>

definition url_at :: "ustr \<Rightarrow> bool" where
  "url_at cs =
     ((starts_with (u ''http'') cs \<and> (case drop 4 cs of [] \<Rightarrow> False | c # _ \<Rightarrow> \<not> is_space c))
      \<or> (starts_with (u ''www'') cs \<and> (case drop 3 cs of [] \<Rightarrow> False | c # _ \<Rightarrow> \<not> is_space c)))"

text \<open>
  \<open>re.sub(r'http\S+|www\S+', '', text)\<close>: scanning from the left, a match is deleted
  and the scan goes on behind it; \<open>\S+\<close> is greedy, so a match runs to the next
  whitespace (its first character is \<open>h\<close> or \<open>w\<close>, hence no whitespace).
\<close>

function strip_urls :: "ustr \<Rightarrow> ustr" where
  "strip_urls [] = []"
| "strip_urls (c # cs) =
     (if url_at (c # cs) then strip_urls (dropWhile (\<lambda>x. \<not> is_space x) cs)
      else c # strip_urls cs)"
  by pat_completeness auto
termination
  by (relation "measure length") (auto simp: less_Suc_eq_le length_dropWhile_le)

text \<open>
  Whether \<open>\S+@\S+\<close> matches at the head of the text: the run of characters up to the
  next whitespace has an \<open>@\<close> that is neither its first nor its last character.
\<close>

definition email_at :: "ustr \<Rightarrow> bool" where
  "email_at cs = (64 \<in> set (butlast (tl (takeWhile (\<lambda>x. \<not> is_space x) cs))))"

text \<open>\<open>re.sub(r'\S+@\S+', '', text)\<close>: both \<open>\S+\<close> are greedy, a match runs to the next whitespace.\<close>

function strip_emails :: "ustr \<Rightarrow> ustr" where
  "strip_emails [] = []"
| "strip_emails (c # cs) =
     (if email_at (c # cs) then strip_emails (dropWhile (\<lambda>x. \<not> is_space x) cs)
      else c # strip_emails cs)"
  by pat_completeness auto
termination
  by (relation "measure length") (auto simp: less_Suc_eq_le length_dropWhile_le)

text \<open>
  \<open>str.lower()\<close> where \<open>tokenize\<close> calls it: the text then holds only ASCII letters
  and digits, characters of the Bangla block and whitespace, of which only \<open>A\<close> to
  \<open>Z\<close> have a lower case.
\<close>

definition py_lower :: "ustr \<Rightarrow> ustr" where
  "py_lower s = map (\<lambda>c. if 65 \<le> c \<and> c \<le> 90 then c + 32 else c) s"

text \<open>\<open>str.split()\<close> with no separator: the maximal runs without whitespace.\<close>

function py_split :: "ustr \<Rightarrow> ustr list" where
  "py_split [] = []"
| "py_split (c # cs) =
     (if is_space c then py_split cs
      else (c # takeWhile (\<lambda>x. \<not> is_space x) cs) # py_split (dropWhile (\<lambda>x. \<not> is_space x) cs))"
  by pat_completeness auto
termination
  by (relation "measure length") (auto simp: less_Suc_eq_le length_dropWhile_le)

definition py_strip :: "ustr \<Rightarrow> ustr" where
  "py_strip s = rev (dropWhile is_space (rev (dropWhile is_space s)))"

definition tokenize :: "ustr \<Rightarrow> string \<Rightarrow> ustr list" where
  "tokenize text language =
     (let lang = (if language = ''auto'' then (if is_bangla text then ''bn'' else ''en'') else language);
          text1 = strip_urls text;
          text2 = strip_emails text1;
          text3 = (if lang = ''bn''
                   then map (\<lambda>c. if is_bangla_char c \<or> is_space c then c else 32) text2
                   else map (\<lambda>c. if is_ascii_alnum c \<or> is_space c then c else 32) text2)
      in map py_strip (filter (\<lambda>t. py_strip t \<noteq> []) (py_split (py_lower text3))))"

definition remove_stopwords :: "ustr list \<Rightarrow> string \<Rightarrow> ustr list" where
  "remove_stopwords tokens language =
     (let lang = (if language = ''auto''
                  then (if (case tokens of [] \<Rightarrow> False | t0 # _ \<Rightarrow> is_bangla t0) then ''bn'' else ''en'')
                  else language);
          stopwords = (if lang = ''bn'' then bangla_stopwords else english_stopwords)
      in filter (\<lambda>t. t \<notin> set stopwords) tokens)"

text \<open>
  \<open>preprocess\<close> takes any Python value: \<open>not text or not isinstance(text, str)\<close> sends
  the empty string and every value that is not a string to the empty list.
\<close>

definition preprocess :: "pyval \<Rightarrow> string \<Rightarrow> ustr list" where
  "preprocess text language =
     (case text of
        PStr s \<Rightarrow>
          if s = [] then []
          else filter (\<lambda>t. length t > 1) (remove_stopwords (tokenize s language) language)
      | _ \<Rightarrow> [])"

text \<open>\<open>" ".join(tokens)\<close>\<close>

fun join_space :: "ustr list \<Rightarrow> ustr" where
  "join_space [] = []"
| "join_space [t] = t"
| "join_space (t # ts) = t @ 32 # join_space ts"

section \<open>Persistence (InvertedIndex.save, InvertedIndex.load)\<close>

text \<open>
  The dictionary that \<open>save\<close> pickles and \<open>load\<close> reads back, one field per key;
  a field is \<open>None\<close> when the dictionary lacks the key, and the subscript of \<open>load\<close>
  then raises \<open>KeyError\<close>. \<open>pickle\<close> is a library outside the repository: \<open>save\<close>
  and \<open>load\<close> take its two directions as parameters, \<open>dumps\<close> from the dictionary
  to a blob and \<open>loads\<close> back, which returns the error \<open>pickle.load\<close> raises on
  a blob it cannot read (\<open>EOFError\<close> on an empty file, \<open>UnpicklingError\<close>). The
  file system is a map from paths to blobs; a path that cannot be written is outside
  the model.
\<close>

record pickle_data =
  p_index :: "(ustr \<times> (doc_id \<times> nat) list) list option"
  p_doc_lengths :: "(doc_id \<times> nat) list option"
  p_doc_count :: "nat option"
  p_avg_doc_length :: "real option"
  p_term_doc_freq :: "(ustr \<times> nat) list option"
  p_documents :: "(doc_id \<times> metadata) list option"

definition save ::
  "(pickle_data \<Rightarrow> 'blob) \<Rightarrow> inverted_index \<Rightarrow> string \<Rightarrow> (string \<rightharpoonup> 'blob) \<Rightarrow> (string \<rightharpoonup> 'blob)" where
  "save dumps idx filepath fs =
     (let data = \<lparr>p_index = Some (index idx), p_doc_lengths = Some (doc_lengths idx),
                  p_doc_count = Some (doc_count idx),
                  p_avg_doc_length = Some (avg_doc_length idx),
                  p_term_doc_freq = Some (term_doc_freq idx),
                  p_documents = Some (documents idx)\<rparr>
      in fs(filepath \<mapsto> dumps data))"

text \<open>
  \<open>load\<close>: the file is opened and unpickled, then the six subscripts
  \<open>data['index']\<close> to \<open>data['documents']\<close> are read in the order of the source.
\<close>

definition load ::
  "('blob \<Rightarrow> py_error + pickle_data) \<Rightarrow> string \<Rightarrow> (string \<rightharpoonup> 'blob) \<Rightarrow> py_error + inverted_index" where
  "load loads filepath fs =
     (case fs filepath of
        None \<Rightarrow> Inl FileNotFoundError
      | Some blob \<Rightarrow>
          (case loads blob of
             Inl e \<Rightarrow> Inl e
           | Inr data \<Rightarrow>
               (case p_index data of
                  None \<Rightarrow> Inl KeyError
                | Some loaded_index \<Rightarrow>
                    (case p_doc_lengths data of
                       None \<Rightarrow> Inl KeyError
                     | Some loaded_lengths \<Rightarrow>
                         (case p_doc_count data of
                            None \<Rightarrow> Inl KeyError
                          | Some loaded_count \<Rightarrow>
                              (case p_avg_doc_length data of
                                 None \<Rightarrow> Inl KeyError
                               | Some loaded_avg \<Rightarrow>
                                   (case p_term_doc_freq data of
                                      None \<Rightarrow> Inl KeyError
                                    | Some loaded_freq \<Rightarrow>
                                        (case p_documents data of
                                           None \<Rightarrow> Inl KeyError
                                         | Some loaded_documents \<Rightarrow>
                                             Inr \<lparr>index = loaded_index,
                                                  doc_lengths = loaded_lengths,
                                                  doc_count = loaded_count,
                                                  avg_doc_length = loaded_avg,
                                                  term_doc_freq = loaded_freq,
                                                  documents = loaded_documents\<rparr>))))))))"

section \<open>BM25Retriever (src/retrieval/lexical\_bm25.py)\<close>

text \<open>
  \<open>self.index\<close> is \<open>None\<close> until an index is loaded. An \<open>InvertedIndex\<close> object
  defines neither \<open>__bool__\<close> nor \<open>__len__\<close>, so \<open>not self.index\<close> holds exactly
  when no index is loaded.
\<close>

record bm25_retriever =
  k1 :: real
  b :: real
  retriever_index :: "inverted_index option"

text \<open>\<open>BM25Retriever.__init__\<close> without an index path, and \<open>load_index\<close>.\<close>

definition BM25Retriever_init :: "real \<Rightarrow> real \<Rightarrow> bm25_retriever" where
  "BM25Retriever_init k1_arg b_arg = \<lparr>k1 = k1_arg, b = b_arg, retriever_index = None\<rparr>"

definition load_index ::
  "('blob \<Rightarrow> py_error + pickle_data) \<Rightarrow> string \<Rightarrow> (string \<rightharpoonup> 'blob) \<Rightarrow> bm25_retriever
     \<Rightarrow> py_error + bm25_retriever" where
  "load_index loads index_path fs r =
     (case load loads index_path fs of
        Inl e \<Rightarrow> Inl e
      | Inr idx \<Rightarrow> Inr (r\<lparr>retriever_index := Some idx\<rparr>))"

text \<open>\<open>math.log\<close> raises \<open>ValueError\<close> outside its domain; \<open>/\<close> raises \<open>ZeroDivisionError\<close>.\<close>

definition py_log :: "real \<Rightarrow> py_error + real" where
  "py_log x = (if x \<le> 0 then Inl ValueError else Inr (ln x))"

definition py_div :: "real \<Rightarrow> real \<Rightarrow> py_error + real" where
  "py_div x y = (if y = 0 then Inl ZeroDivisionError else Inr (x / y))"

definition compute_idf :: "bm25_retriever \<Rightarrow> ustr \<Rightarrow> py_error + real" where
  "compute_idf r term =
     (case retriever_index r of
        None \<Rightarrow> Inr 0
      | Some idx \<Rightarrow>
          (let N = doc_count idx; df = get_document_frequency idx term
           in if df = 0 then Inr 0
              else (case py_div (real N - real df + 0.5) (real df + 0.5) of
                      Inl e \<Rightarrow> Inl e
                    | Inr q \<Rightarrow> py_log (q + 1.0))))"

text \<open>The inner loop over a posting list, left at the first posting of the document.\<close>

fun find_tf :: "(doc_id \<times> nat) list \<Rightarrow> doc_id \<Rightarrow> nat" where
  "find_tf [] d = 0"
| "find_tf ((posting_doc_id, freq) # postings) d =
     (if posting_doc_id = d then freq else find_tf postings d)"

text \<open>The loop of \<open>compute_bm25_score\<close> over the query terms, \<open>score\<close> its accumulator.\<close>

fun score_terms ::
  "bm25_retriever \<Rightarrow> inverted_index \<Rightarrow> doc_id \<Rightarrow> nat \<Rightarrow> real \<Rightarrow> ustr list \<Rightarrow> real \<Rightarrow> py_error + real" where
  "score_terms r idx d doc_length avgdl [] score = Inr score"
| "score_terms r idx d doc_length avgdl (term # terms) score =
     (case compute_idf r term of
        Inl e \<Rightarrow> Inl e
      | Inr idf \<Rightarrow>
          if idf = 0 then score_terms r idx d doc_length avgdl terms score
          else
            (let tf = find_tf (get_postings idx term) d
             in if tf = 0 then score_terms r idx d doc_length avgdl terms score
                else
                  (case py_div (real doc_length) avgdl of
                     Inl e \<Rightarrow> Inl e
                   | Inr ratio \<Rightarrow>
                       (let numerator = real tf * (k1 r + 1);
                            denominator = real tf + k1 r * (1 - b r + b r * ratio)
                        in case py_div numerator denominator of
                             Inl e \<Rightarrow> Inl e
                           | Inr q \<Rightarrow>
                               score_terms r idx d doc_length avgdl terms (score + idf * q)))))"

definition compute_bm25_score :: "bm25_retriever \<Rightarrow> ustr list \<Rightarrow> doc_id \<Rightarrow> py_error + real" where
  "compute_bm25_score r query_terms d =
     (case retriever_index r of
        None \<Rightarrow> Inr 0
      | Some idx \<Rightarrow>
          (let doc_length = get_or (doc_lengths idx) 0 d
           in if doc_length = 0 then Inr 0
              else score_terms r idx d doc_length (avg_doc_length idx) query_terms 0))"

subsection \<open>search\<close>

text \<open>
  An entry of \<open>scored_docs\<close>, and an entry of \<open>results\<close>: the same with the
  confidence and the caution flag that \<open>search\<close> adds to the entries it returns.
\<close>

record scored_doc =
  hit_doc_id :: doc_id
  hit_score :: real
  hit_title :: pyval
  hit_url :: pyval
  hit_language :: pyval

record search_hit = scored_doc +
  hit_confidence :: real
  hit_caution :: bool

text \<open>
  The dictionary \<open>search\<close> returns, without its timings (wall-clock readings). The
  early return for an empty query has no \<open>query_terms\<close> key.
\<close>

record search_response =
  resp_query :: pyval
  resp_query_terms :: "ustr list option"
  results :: "search_hit list"
  total_results :: nat

text \<open>
  \<open>candidate_docs\<close> is a Python \<open>set\<close>. \<open>set_add\<close> is \<open>set.add\<close> on the list of the
  set's elements in the order of their first insertion, and \<open>candidate_docs\<close> is
  the loop that fills the set. The order in which a \<open>for\<close> loop visits a set is
  fixed by the hashes of its elements, not by the insertions: \<open>search\<close> takes it as
  the parameter \<open>iter_order\<close>, from the insertion list to the visiting order, and
  \<open>set_iteration\<close> says what every such order satisfies, that it visits each
  element once.
\<close>

definition set_add :: "'a \<Rightarrow> 'a list \<Rightarrow> 'a list" where
  "set_add x xs = (if x \<in> set xs then xs else xs @ [x])"

definition candidate_docs :: "inverted_index \<Rightarrow> ustr list \<Rightarrow> doc_id list" where
  "candidate_docs idx query_terms =
     foldl (\<lambda>acc d. set_add d acc) []
       (concat (map (\<lambda>term. map fst (get_postings idx term)) query_terms))"

definition set_iteration :: "(doc_id list \<Rightarrow> doc_id list) \<Rightarrow> bool" where
  "set_iteration iter_order =
     (\<forall>xs. distinct xs \<longrightarrow> distinct (iter_order xs) \<and> set (iter_order xs) = set xs)"

text \<open>
  The scoring loop over the candidates. A subscript on a dictionary raises
  \<open>KeyError\<close> for a missing key: \<open>documents[doc_id]\<close>, and \<open>metadata['title']\<close>,
  \<open>metadata['url']\<close> and \<open>metadata['language']\<close>, read in this order.
\<close>

fun score_candidates ::
  "bm25_retriever \<Rightarrow> inverted_index \<Rightarrow> ustr list \<Rightarrow> doc_id list \<Rightarrow> py_error + scored_doc list" where
  "score_candidates r idx query_terms [] = Inr []"
| "score_candidates r idx query_terms (d # ds) =
     (case compute_bm25_score r query_terms d of
        Inl e \<Rightarrow> Inl e
      | Inr score \<Rightarrow>
          if score > 0 then
            (case map_of (documents idx) d of
               None \<Rightarrow> Inl KeyError
             | Some md \<Rightarrow>
                 (case map_of md ''title'' of
                    None \<Rightarrow> Inl KeyError
                  | Some title \<Rightarrow>
                      (case map_of md ''url'' of
                         None \<Rightarrow> Inl KeyError
                       | Some url \<Rightarrow>
                           (case map_of md ''language'' of
                              None \<Rightarrow> Inl KeyError
                            | Some language \<Rightarrow>
                                (case score_candidates r idx query_terms ds of
                                   Inl e \<Rightarrow> Inl e
                                 | Inr rest \<Rightarrow>
                                     Inr (\<lparr>hit_doc_id = d, hit_score = score, hit_title = title,
                                           hit_url = url, hit_language = language\<rparr> # rest))))))
          else score_candidates r idx query_terms ds)"

text \<open>
  \<open>scored_docs[:top_k]\<close> for an integer \<open>top_k\<close>: a negative bound counts from the
  end of the list.
\<close>

definition slice_to :: "'a list \<Rightarrow> int \<Rightarrow> 'a list" where
  "slice_to xs k = (if 0 \<le> k then take (nat k) xs else take (length xs - nat (- k)) xs)"

text \<open>The confidence and the caution flag, relative to the score of the first result.\<close>

definition annotate :: "scored_doc list \<Rightarrow> search_hit list" where
  "annotate top_results =
     (case top_results of
        [] \<Rightarrow> []
      | first # _ \<Rightarrow>
          (let max_score = hit_score first
           in map (\<lambda>x. let confidence = (if max_score > 0 then hit_score x / max_score else 0)
                        in scored_doc.extend x
                             \<lparr>hit_confidence = confidence, hit_caution = (confidence < 0.3)\<rparr>)
                top_results))"

text \<open>
  \<open>list.sort(key=..., reverse=True)\<close> is stable: it orders by descending score and
  leaves entries of equal score in the order they had, as the stable \<open>sort_key\<close> on
  the negated score does.
\<close>

definition search ::
  "bm25_retriever \<Rightarrow> (doc_id list \<Rightarrow> doc_id list) \<Rightarrow> pyval \<Rightarrow> int \<Rightarrow> string
     \<Rightarrow> py_error + search_response" where
  "search r iter_order query top_k language =
     (case retriever_index r of
        None \<Rightarrow> Inl ValueError
      | Some idx \<Rightarrow>
          (let query_terms = preprocess query language
           in if query_terms = []
              then Inr \<lparr>resp_query = query, resp_query_terms = None, results = [], total_results = 0\<rparr>
              else
                (case score_candidates r idx query_terms (iter_order (candidate_docs idx query_terms)) of
                   Inl e \<Rightarrow> Inl e
                 | Inr scored_docs \<Rightarrow>
                     (let sorted_docs = sort_key (\<lambda>x. - hit_score x) scored_docs;
                          top_results = slice_to sorted_docs top_k
                      in Inr \<lparr>resp_query = query, resp_query_terms = Some query_terms,
                              results = annotate top_results,
                              total_results = length scored_docs\<rparr>))))"

section \<open>Invariants, the formulas of the specification and example inputs\<close>

text \<open>
  The two invariants of the data model: a term's document-frequency counter is the
  number of distinct document ids in its posting list, and every document id of a
  posting list has a length and a metadata entry.
\<close>

definition df_consistent :: "inverted_index \<Rightarrow> bool" where
  "df_consistent idx =
     (\<forall>t. get_document_frequency idx t = card (fst ` set (get_postings idx t)))"

definition postings_covered :: "inverted_index \<Rightarrow> bool" where
  "postings_covered idx =
     (\<forall>t. \<forall>d \<in> fst ` set (get_postings idx t).
        d \<in> fst ` set (doc_lengths idx) \<and> d \<in> fst ` set (documents idx))"

text \<open>
  The invariant carried through the build: with pairwise distinct ids a posting list
  names each document once, so its length is the number of its distinct ids.
\<close>

definition build_inv :: "inverted_index \<Rightarrow> bool" where
  "build_inv idx =
     ((\<forall>t. get_document_frequency idx t = length (get_postings idx t)
          \<and> distinct (map fst (get_postings idx t))
          \<and> fst ` set (get_postings idx t) \<subseteq> fst ` set (doc_lengths idx))
      \<and> fst ` set (doc_lengths idx) \<subseteq> fst ` set (documents idx))"

text \<open>
  The example corpus: two English documents, \<open>cheap car deals in dhaka\<close> and
  \<open>expensive car dealership in chittagong\<close>, as \<open>build_index_from_documents\<close>
  passes them to \<open>add_document\<close> (preprocessed, with the metadata it builds).
\<close>

definition example_docs :: "(doc_id \<times> ustr list \<times> metadata) list" where
  "example_docs =
     [(''en_0'', map u [''cheap'', ''car'', ''deals'', ''dhaka''],
         [(''title'', PStr (u ''A'')), (''url'', PStr (u ''a'')), (''language'', PStr (u ''en'')), (''original_index'', PInt 0)]),
      (''en_1'', map u [''expensive'', ''car'', ''dealership'', ''chittagong''],
         [(''title'', PStr (u ''B'')), (''url'', PStr (u ''b'')), (''language'', PStr (u ''en'')), (''original_index'', PInt 1)])]"

text \<open>
  The tunables of BM25 in their range: a saturation parameter \<open>k1\<close> that is not
  negative and a length normalisation \<open>b\<close> between 0 and 1. The defaults of
  \<open>BM25Retriever.__init__\<close> are 1.5 and 0.75.
\<close>

definition valid_params :: "bm25_retriever \<Rightarrow> bool" where
  "valid_params r = (0 \<le> k1 r \<and> 0 \<le> b r \<and> b r \<le> 1)"

text \<open>
  The inverse document frequency as the specification writes it, for a corpus of
  \<open>N\<close> documents and a term in \<open>df\<close> of them.
\<close>

definition idf_spec :: "nat \<Rightarrow> nat \<Rightarrow> real" where
  "idf_spec N df = (if df = 0 then 0 else ln ((real N - real df + 0.5) / (real df + 0.5) + 1.0))"

text \<open>
  What one round of the loop of \<open>compute_bm25_score\<close> adds to the score when no
  division fails: nothing for a term of zero IDF or absent from the document.
\<close>

definition term_score :: "bm25_retriever \<Rightarrow> inverted_index \<Rightarrow> doc_id \<Rightarrow> nat \<Rightarrow> real \<Rightarrow> ustr \<Rightarrow> real" where
  "term_score r idx d doc_length avgdl term =
     (let idf = idf_spec (doc_count idx) (get_document_frequency idx term);
          tf = find_tf (get_postings idx term) d
      in if idf = 0 \<or> tf = 0 then 0
         else idf * (real tf * (k1 r + 1)
                / (real tf + k1 r * (1 - b r + b r * (real doc_length / avgdl)))))"

text \<open>
  Raising a term frequency with all else fixed: the index in which every posting of
  document \<open>d\<close> in the list of \<open>term\<close> has its frequency raised by \<open>n\<close>, and
  every other posting, the lengths, the counts and the average are as before.
\<close>

definition bump_tf :: "ustr \<Rightarrow> doc_id \<Rightarrow> nat \<Rightarrow> inverted_index \<Rightarrow> inverted_index" where
  "bump_tf term d n idx =
     idx\<lparr>index := map (\<lambda>(t, postings).
                         (t, if t = term
                             then map (\<lambda>(pd, freq). (pd, if pd = d then freq + n else freq)) postings
                             else postings))
                    (index idx)\<rparr>"

text \<open>
  The statistics of a corpus, read off the documents themselves: in how many
  documents a term occurs, how often it occurs in a document, the length of a
  document, and the mean length.
\<close>

definition corpus_df :: "(doc_id \<times> ustr list \<times> metadata) list \<Rightarrow> ustr \<Rightarrow> nat" where
  "corpus_df docs t = length (filter (\<lambda>(d, toks, md). t \<in> set toks) docs)"

definition corpus_tf :: "(doc_id \<times> ustr list \<times> metadata) list \<Rightarrow> doc_id \<Rightarrow> ustr \<Rightarrow> nat" where
  "corpus_tf docs d t = (case map_of docs d of None \<Rightarrow> 0 | Some (toks, md) \<Rightarrow> count_list toks t)"

definition corpus_doc_len :: "(doc_id \<times> ustr list \<times> metadata) list \<Rightarrow> doc_id \<Rightarrow> nat" where
  "corpus_doc_len docs d = (case map_of docs d of None \<Rightarrow> 0 | Some (toks, md) \<Rightarrow> length toks)"

definition corpus_avg_len :: "(doc_id \<times> ustr list \<times> metadata) list \<Rightarrow> real" where
  "corpus_avg_len docs = real (\<Sum>(d, toks, md)\<leftarrow>docs. length toks) / real (length docs)"

text \<open>
  The BM25 score as the specification writes it: per query term
  \<open>IDF \<times> (tf \<times> (k1 + 1)) / (tf + k1 \<times> (1 - b + b \<times> docLen / avgDocLen))\<close>, summed
  over the query terms.
\<close>

definition bm25_term_spec :: "real \<Rightarrow> real \<Rightarrow> real \<Rightarrow> real \<Rightarrow> real \<Rightarrow> real \<Rightarrow> real" where
  "bm25_term_spec k bb idf tf docLen avgDocLen =
     idf * (tf * (k + 1)) / (tf + k * (1 - bb + bb * docLen / avgDocLen))"

definition bm25_spec ::
  "bm25_retriever \<Rightarrow> (doc_id \<times> ustr list \<times> metadata) list \<Rightarrow> ustr list \<Rightarrow> doc_id \<Rightarrow> real" where
  "bm25_spec r docs query_terms d =
     (\<Sum>t\<leftarrow>query_terms.
        bm25_term_spec (k1 r) (b r) (idf_spec (length docs) (corpus_df docs t))
          (real (corpus_tf docs d t)) (real (corpus_doc_len docs d)) (corpus_avg_len docs))"

text \<open>A retriever with the default tunables, loaded with the finalized example index.\<close>

definition example_retriever :: bm25_retriever where
  "example_retriever = (BM25Retriever_init 1.5 0.75)\<lparr>retriever_index := Some (finalize (build example_docs))\<rparr>"

text \<open>
  The keys \<open>search\<close> reads from the metadata of a document;
  \<open>build_index_from_documents\<close> stores all three.
\<close>

definition has_keys :: "metadata \<Rightarrow> bool" where
  "has_keys md =
     (map_of md ''title'' \<noteq> None \<and> map_of md ''url'' \<noteq> None \<and> map_of md ''language'' \<noteq> None)"

text \<open>
  A retriever with the default tunables on the example index before \<open>finalize\<close>,
  and one on a fresh, empty index.
\<close>

definition unfinalized_retriever :: bm25_retriever where
  "unfinalized_retriever =
     (BM25Retriever_init 1.5 0.75)\<lparr>retriever_index := Some (build example_docs)\<rparr>"

definition empty_retriever :: bm25_retriever where
  "empty_retriever = (BM25Retriever_init 1.5 0.75)\<lparr>retriever_index := Some InvertedIndex_init\<rparr>"

text \<open>
  Two documents with the same tokens, hence the same score for the query \<open>car\<close>,
  a retriever with the default tunables on their finalized index, and the entry
  that \<open>search\<close> returns for each of them.
\<close>

definition tie_docs :: "(doc_id \<times> ustr list \<times> metadata) list" where
  "tie_docs =
     [(''en_0'', [u ''car''],
         [(''title'', PStr (u ''A'')), (''url'', PStr (u ''a'')), (''language'', PStr (u ''en'')), (''original_index'', PInt 0)]),
      (''en_1'', [u ''car''],
         [(''title'', PStr (u ''B'')), (''url'', PStr (u ''b'')), (''language'', PStr (u ''en'')), (''original_index'', PInt 1)])]"

definition tie_retriever :: bm25_retriever where
  "tie_retriever = (BM25Retriever_init 1.5 0.75)\<lparr>retriever_index := Some (finalize (build tie_docs))\<rparr>"

definition tie_hit :: "doc_id \<Rightarrow> string \<Rightarrow> string \<Rightarrow> search_hit" where
  "tie_hit d title_text url_text =
     \<lparr>hit_doc_id = d, hit_score = ln (6 / 5), hit_title = PStr (u title_text),
      hit_url = PStr (u url_text), hit_language = PStr (u ''en''),
      hit_confidence = 1, hit_caution = False\<rparr>"

text \<open>
  Inputs outside the conditions of the data model. A document with a repeated term
  beside a second document, and retrievers whose \<open>k1\<close> is negative (the
  constructor takes any float); an id added twice, the second time with no tokens;
  and a document whose metadata has no \<open>url\<close>.
\<close>

definition negative_docs :: "(doc_id \<times> ustr list \<times> metadata) list" where
  "negative_docs =
     [(''en_0'', [u ''car'', u ''car''],
         [(''title'', PStr (u ''A'')), (''url'', PStr (u ''a'')), (''language'', PStr (u ''en''))]),
      (''en_1'', [u ''bus''],
         [(''title'', PStr (u ''B'')), (''url'', PStr (u ''b'')), (''language'', PStr (u ''en''))])]"

definition negative_retriever :: bm25_retriever where
  "negative_retriever =
     (BM25Retriever_init (- (3 / 2)) 0)\<lparr>retriever_index := Some (finalize (build negative_docs))\<rparr>"

definition duplicate_docs :: "(doc_id \<times> ustr list \<times> metadata) list" where
  "duplicate_docs =
     [(''d'', [u ''car''],
         [(''title'', PStr (u ''A'')), (''url'', PStr (u ''a'')), (''language'', PStr (u ''en''))]),
      (''d'', [],
         [(''title'', PStr (u ''A'')), (''url'', PStr (u ''a'')), (''language'', PStr (u ''en''))]),
      (''e'', [u ''bus''],
         [(''title'', PStr (u ''B'')), (''url'', PStr (u ''b'')), (''language'', PStr (u ''en''))])]"

definition duplicate_retriever :: bm25_retriever where
  "duplicate_retriever =
     (BM25Retriever_init 1.5 0.75)\<lparr>retriever_index := Some (finalize (build duplicate_docs))\<rparr>"

definition no_url_docs :: "(doc_id \<times> ustr list \<times> metadata) list" where
  "no_url_docs =
     [(''en_0'', [u ''car''], [(''title'', PStr (u ''A'')), (''language'', PStr (u ''en''))])]"

definition no_url_retriever :: bm25_retriever where
  "no_url_retriever =
     (BM25Retriever_init 1.5 0.75)\<lparr>retriever_index := Some (finalize (build no_url_docs))\<rparr>"

text \<open>A retriever with \<open>k1 = -1/2\<close> and \<open>b = 0\<close>, before an index is loaded.\<close>

definition half_retriever :: bm25_retriever where
  "half_retriever = BM25Retriever_init (- (1 / 2)) 0"

section \<open>Building an index\<close>

lemma get_or_update: "get_or (AList.update k v al) dflt k' = (if k' = k then v else get_or al dflt k')"
  by (simp add: get_or_def update_conv')

lemma keys_update: "fst ` set (AList.update k v al) = insert k (fst ` set al)"
  by (metis dom_update dom_map_of_conv_image_fst update_conv' dom_fun_upd option.distinct(1) )

lemma count_terms_distinct: "distinct (map fst tf) \<Longrightarrow> distinct (map fst (count_terms ts tf))"
  by (induction ts arbitrary: tf) (simp_all add: distinct_update)

lemma count_terms_keys: "fst ` set (count_terms ts tf) = set ts \<union> fst ` set tf"
  by (induction ts arbitrary: tf) (auto simp: keys_update)

lemma count_terms_get: "get_or (count_terms ts tf) 0 t = get_or tf 0 t + count_list ts t"
  by (induction ts arbitrary: tf) (simp_all add: get_or_update)

lemma add_postings_postings:
  "distinct (map fst tf) \<Longrightarrow>
   get_postings (add_postings d tf idx) t =
     get_postings idx t @ (case map_of tf t of None \<Rightarrow> [] | Some f \<Rightarrow> [(d, f)])"
proof (induction tf arbitrary: idx)
  case Nil
  then show ?case by simp
next
  case (Cons p tf)
  obtain t' f' where p: "p = (t', f')" by (cases p)
  from Cons.prems p have nt: "t' \<notin> fst ` set tf" and dt: "distinct (map fst tf)" by auto
  have nm: "map_of tf t' = None" using nt by (simp add: map_of_eq_None_iff)
  show ?case
    using Cons.IH[OF dt] nm by (auto simp: p get_postings_def get_or_update split: option.splits)
qed

lemma add_postings_df:
  "distinct (map fst tf) \<Longrightarrow>
   get_document_frequency (add_postings d tf idx) t =
     get_document_frequency idx t + (if t \<in> fst ` set tf then 1 else 0)"
proof (induction tf arbitrary: idx)
  case Nil
  then show ?case by simp
next
  case (Cons p tf)
  obtain t' f' where p: "p = (t', f')" by (cases p)
  from Cons.prems p have nt: "t' \<notin> fst ` set tf" and dt: "distinct (map fst tf)" by auto
  show ?case
    using Cons.IH[OF dt] nt by (auto simp: p get_document_frequency_def get_or_update)
qed

lemma add_postings_other [simp]:
  "doc_lengths (add_postings d tf idx) = doc_lengths idx"
  "documents (add_postings d tf idx) = documents idx"
  "doc_count (add_postings d tf idx) = doc_count idx"
  "avg_doc_length (add_postings d tf idx) = avg_doc_length idx"
  by (induction d tf idx rule: add_postings.induct) simp_all

lemma build_inv_init: "build_inv InvertedIndex_init"
  by (simp add: build_inv_def InvertedIndex_init_def get_document_frequency_def get_postings_def get_or_def)

lemma add_document_postings:
  "get_postings (add_document d toks md idx) t =
     get_postings idx t @ (if t \<in> set toks then [(d, count_list toks t)] else [])"
proof -
  have dist: "distinct (map fst (count_terms toks []))" by (simp add: count_terms_distinct)
  have m: "map_of (count_terms toks []) t = (if t \<in> set toks then Some (count_list toks t) else None)"
  proof (cases "t \<in> set toks")
    case True
    then have "t \<in> fst ` set (count_terms toks [])" by (simp add: count_terms_keys)
    then obtain v where v: "map_of (count_terms toks []) t = Some v"
      by (metis domD dom_map_of_conv_image_fst)
    then have "get_or (count_terms toks []) 0 t = v" by (simp add: get_or_def)
    moreover have "get_or (count_terms toks []) 0 t = count_list toks t"
      unfolding count_terms_get by (simp add: get_or_def)
    ultimately show ?thesis using v True by simp
  next
    case False
    then have "t \<notin> fst ` set (count_terms toks [])" by (simp add: count_terms_keys)
    with False show ?thesis by (simp add: map_of_eq_None_iff)
  qed
  have "get_postings (add_document d toks md idx) t = get_postings (add_postings d (count_terms toks []) idx) t"
    by (simp add: add_document_def Let_def get_postings_def)
  then show ?thesis using add_postings_postings[OF dist, of d idx t] m by simp
qed

lemma add_document_df:
  "get_document_frequency (add_document d toks md idx) t =
     get_document_frequency idx t + (if t \<in> set toks then 1 else 0)"
proof -
  have dist: "distinct (map fst (count_terms toks []))" by (simp add: count_terms_distinct)
  have "get_document_frequency (add_document d toks md idx) t
      = get_document_frequency (add_postings d (count_terms toks []) idx) t"
    by (simp add: add_document_def Let_def get_document_frequency_def)
  then show ?thesis using add_postings_df[OF dist, of d idx t] by (simp add: count_terms_keys)
qed

lemma add_document_fields:
  "doc_lengths (add_document d toks md idx) = AList.update d (length toks) (doc_lengths idx)"
  "documents (add_document d toks md idx) = AList.update d md (documents idx)"
  "doc_count (add_document d toks md idx) = doc_count idx + 1"
  "avg_doc_length (add_document d toks md idx) = avg_doc_length idx"
  by (simp_all add: add_document_def Let_def)

lemma build_inv_add_document:
  assumes "build_inv idx" and "d \<notin> fst ` set (doc_lengths idx)"
  shows "build_inv (add_document d toks md idx)"
proof -
  let ?new = "add_document d toks md idx"
  have keys: "fst ` set (doc_lengths idx) \<subseteq> fst ` set (documents idx)"
    using assms(1) by (simp add: build_inv_def)
  have per_term: "get_document_frequency ?new t = length (get_postings ?new t)
          \<and> distinct (map fst (get_postings ?new t))
          \<and> fst ` set (get_postings ?new t) \<subseteq> fst ` set (doc_lengths ?new)" for t
  proof -
    from assms(1) have df: "get_document_frequency idx t = length (get_postings idx t)"
      and di: "distinct (map fst (get_postings idx t))"
      and sub: "fst ` set (get_postings idx t) \<subseteq> fst ` set (doc_lengths idx)"
      by (simp_all add: build_inv_def)
    from sub assms(2) have fresh: "d \<notin> fst ` set (get_postings idx t)" by blast
    show ?thesis
      using df di sub fresh
      by (auto simp: add_document_postings add_document_df add_document_fields keys_update)
  qed
  have "fst ` set (doc_lengths ?new) \<subseteq> fst ` set (documents ?new)"
    using keys by (auto simp: add_document_fields keys_update)
  with per_term show ?thesis unfolding build_inv_def by blast
qed

lemma add_all_snoc: "add_all (docs @ [(d, toks, md)]) idx = add_document d toks md (add_all docs idx)"
  by (simp add: add_all_def)

lemma add_all_doc_lengths_keys:
  "fst ` set (doc_lengths (add_all docs idx)) = fst ` set docs \<union> fst ` set (doc_lengths idx)"
proof (induction docs rule: rev_induct)
  case Nil
  then show ?case by (simp add: add_all_def)
next
  case (snoc x docs)
  obtain d toks md where x: "x = (d, toks, md)" by (cases x)
  show ?case using snoc by (auto simp: x add_all_snoc add_document_fields keys_update)
qed

lemma build_inv_build: "distinct (map fst docs) \<Longrightarrow> build_inv (build docs)"
proof (induction docs rule: rev_induct)
  case Nil
  then show ?case by (simp add: build_def add_all_def build_inv_init)
next
  case (snoc x docs)
  obtain d toks md where x: "x = (d, toks, md)" by (cases x)
  from snoc.prems x have nd: "d \<notin> fst ` set docs" and dd: "distinct (map fst docs)" by auto
  have "d \<notin> fst ` set (doc_lengths (build docs))"
    using nd by (simp add: build_def add_all_doc_lengths_keys InvertedIndex_init_def)
  with snoc.IH[OF dd] show ?case
    unfolding build_def x add_all_snoc by (rule build_inv_add_document)
qed

lemma finalize_fields [simp]:
  "get_postings (finalize idx) t = get_postings idx t"
  "get_document_frequency (finalize idx) t = get_document_frequency idx t"
  "doc_lengths (finalize idx) = doc_lengths idx"
  "documents (finalize idx) = documents idx"
  "doc_count (finalize idx) = doc_count idx"
  by (simp_all add: finalize_def get_document_frequency_def get_postings_def)

lemma build_inv_finalize: "build_inv idx \<Longrightarrow> build_inv (finalize idx)"
  by (simp add: build_inv_def)

lemma build_inv_df_consistent: "build_inv idx \<Longrightarrow> df_consistent idx"
  unfolding build_inv_def df_consistent_def
  by (metis distinct_card length_map set_map)

lemma build_inv_postings_covered: "build_inv idx \<Longrightarrow> postings_covered idx"
  unfolding build_inv_def postings_covered_def by blast

text \<open>
  C4: for a sequence of \<open>add_document\<close> calls with pairwise distinct document ids,
  after each call (every prefix \<open>take n docs\<close> of the sequence), before and after
  \<open>finalize\<close>: every term's document-frequency counter is the number of distinct
  document ids in the term's posting list, and every document id of a posting list
  has an entry in the document-length map and in the metadata map.
\<close>

theorem add_document_invariants:
  assumes "distinct (map fst docs)" and "n \<le> length docs"
  shows "df_consistent (build (take n docs)) \<and> postings_covered (build (take n docs))
       \<and> df_consistent (finalize (build (take n docs)))
       \<and> postings_covered (finalize (build (take n docs)))"
proof -
  have "distinct (map fst (take n docs))" using assms(1) by (simp add: distinct_take take_map[symmetric])
  then have "build_inv (build (take n docs))" by (rule build_inv_build)
  then show ?thesis
    by (simp add: build_inv_df_consistent build_inv_postings_covered build_inv_finalize)
qed


theorem add_document_invariants_witness:
  "distinct (map fst example_docs) \<and> 2 \<le> length example_docs
   \<and> df_consistent (build (take 2 example_docs)) \<and> postings_covered (build (take 2 example_docs))
   \<and> df_consistent (finalize (build (take 2 example_docs)))
   \<and> postings_covered (finalize (build (take 2 example_docs)))"
proof -
  have d: "distinct (map fst example_docs)" by (simp add: example_docs_def)
  have l: "2 \<le> length example_docs" by (simp add: example_docs_def)
  show ?thesis using add_document_invariants[OF d l] d l by simp
qed


lemma update_fresh: "k \<notin> fst ` set al \<Longrightarrow> AList.update k v al = al @ [(k, v)]"
  by (induction al) auto

lemma add_all_postings:
  "get_postings (add_all docs idx) t =
     get_postings idx t @ map (\<lambda>(d, toks, md). (d, count_list toks t)) (filter (\<lambda>(d, toks, md). t \<in> set toks) docs)"
proof (induction docs rule: rev_induct)
  case Nil
  then show ?case by (simp add: add_all_def)
next
  case (snoc x docs)
  obtain d toks md where x: "x = (d, toks, md)" by (cases x)
  show ?case using snoc by (simp add: x add_all_snoc add_document_postings)
qed

lemma add_all_df:
  "get_document_frequency (add_all docs idx) t =
     get_document_frequency idx t + length (filter (\<lambda>(d, toks, md). t \<in> set toks) docs)"
proof (induction docs rule: rev_induct)
  case Nil
  then show ?case by (simp add: add_all_def)
next
  case (snoc x docs)
  obtain d toks md where x: "x = (d, toks, md)" by (cases x)
  show ?case using snoc by (simp add: x add_all_snoc add_document_df)
qed

lemma add_all_doc_count: "doc_count (add_all docs idx) = doc_count idx + length docs"
proof (induction docs rule: rev_induct)
  case Nil
  then show ?case by (simp add: add_all_def)
next
  case (snoc x docs)
  obtain d toks md where x: "x = (d, toks, md)" by (cases x)
  show ?case using snoc by (simp add: x add_all_snoc add_document_fields)
qed

lemma add_all_avg: "avg_doc_length (add_all docs idx) = avg_doc_length idx"
proof (induction docs rule: rev_induct)
  case Nil
  then show ?case by (simp add: add_all_def)
next
  case (snoc x docs)
  obtain d toks md where x: "x = (d, toks, md)" by (cases x)
  show ?case using snoc by (simp add: x add_all_snoc add_document_fields)
qed

lemma init_fields [simp]:
  "get_postings InvertedIndex_init t = []"
  "get_document_frequency InvertedIndex_init t = 0"
  "doc_count InvertedIndex_init = 0"
  "avg_doc_length InvertedIndex_init = 0"
  "doc_lengths InvertedIndex_init = []"
  "documents InvertedIndex_init = []"
  by (simp_all add: InvertedIndex_init_def get_postings_def get_document_frequency_def get_or_def)

lemma build_postings:
  "get_postings (build docs) t =
     map (\<lambda>(d, toks, md). (d, count_list toks t)) (filter (\<lambda>(d, toks, md). t \<in> set toks) docs)"
  by (simp add: build_def add_all_postings)

lemma build_df:
  "get_document_frequency (build docs) t = length (filter (\<lambda>(d, toks, md). t \<in> set toks) docs)"
  by (simp add: build_def add_all_df)

lemma build_doc_count: "doc_count (build docs) = length docs"
  by (simp add: build_def add_all_doc_count)

lemma build_avg: "avg_doc_length (build docs) = 0"
  by (simp add: build_def add_all_avg)

lemma build_doc_lengths:
  "distinct (map fst docs) \<Longrightarrow> doc_lengths (build docs) = map (\<lambda>(d, toks, md). (d, length toks)) docs"
proof (induction docs rule: rev_induct)
  case Nil
  then show ?case by (simp add: build_def add_all_def)
next
  case (snoc x docs)
  obtain d toks md where x: "x = (d, toks, md)" by (cases x)
  from snoc.prems x have nd: "d \<notin> fst ` set docs" and dd: "distinct (map fst docs)" by auto
  have "d \<notin> fst ` set (doc_lengths (build docs))"
    using nd by (simp add: build_def add_all_doc_lengths_keys)
  then show ?case
    using snoc.IH[OF dd] by (simp add: build_def x add_all_snoc add_document_fields update_fresh)
qed

lemma build_documents:
  "distinct (map fst docs) \<Longrightarrow> documents (build docs) = map (\<lambda>(d, toks, md). (d, md)) docs"
proof (induction docs rule: rev_induct)
  case Nil
  then show ?case by (simp add: build_def add_all_def)
next
  case (snoc x docs)
  obtain d toks md where x: "x = (d, toks, md)" by (cases x)
  from snoc.prems x have nd: "d \<notin> fst ` set docs" and dd: "distinct (map fst docs)" by auto
  have "fst ` set (documents (build docs)) = fst ` set docs"
    using snoc.IH[OF dd] by (force simp: image_iff)
  with nd have "d \<notin> fst ` set (documents (build docs))" by simp
  then show ?case
    using snoc.IH[OF dd] by (simp add: build_def x add_all_snoc add_document_fields update_fresh)
qed

lemma avg_build:
  assumes "distinct (map fst docs)" "docs \<noteq> []"
  shows "avg_doc_length (finalize (build docs)) = corpus_avg_len docs"
proof -
  have "map snd (doc_lengths (build docs)) = map (\<lambda>(d, toks, md). length toks) docs"
    by (simp add: build_doc_lengths[OF assms(1)] case_prod_unfold)
  then show ?thesis using assms(2) by (simp add: finalize_def build_doc_count corpus_avg_len_def)
qed

text \<open>
  C5: after any sequence of \<open>add_document\<close> calls on a fresh index and one
  \<open>finalize\<close>, the average document length is the sum of the recorded lengths
  divided by the document count, and 0 when the count is 0; the count is the number
  of calls, and with pairwise distinct ids the recorded lengths are the token counts
  of the documents and the average is their arithmetic mean \<open>corpus_avg_len\<close>.
\<close>

theorem finalize_average:
  "avg_doc_length (finalize (build docs)) =
     (if doc_count (build docs) = 0 then 0
      else real (sum_list (map snd (doc_lengths (build docs)))) / real (doc_count (build docs)))
   \<and> doc_count (build docs) = length docs
   \<and> (distinct (map fst docs) \<longrightarrow>
        map snd (doc_lengths (build docs)) = map (\<lambda>(d, toks, md). length toks) docs
        \<and> avg_doc_length (finalize (build docs)) = (if docs = [] then 0 else corpus_avg_len docs))"
proof -
  have lens: "map snd (doc_lengths (build docs)) = map (\<lambda>(d, toks, md). length toks) docs"
    if "distinct (map fst docs)"
    using that by (simp add: build_doc_lengths case_prod_unfold)
  have mean: "avg_doc_length (finalize (build docs)) = (if docs = [] then 0 else corpus_avg_len docs)"
    if "distinct (map fst docs)"
  proof (cases "docs = []")
    case True
    then show ?thesis by (simp add: finalize_def build_avg build_doc_count)
  next
    case False
    with avg_build[OF that False] show ?thesis by simp
  qed
  have "avg_doc_length (finalize (build docs)) =
     (if doc_count (build docs) = 0 then 0
      else real (sum_list (map snd (doc_lengths (build docs)))) / real (doc_count (build docs)))"
    by (simp add: finalize_def build_avg)
  with lens mean show ?thesis by (simp add: build_doc_count)
qed

theorem finalize_average_witness:
  "distinct (map fst example_docs) \<and> avg_doc_length (finalize (build example_docs)) = 4"
proof -
  have d: "distinct (map fst example_docs)" by (simp add: example_docs_def)
  have "map snd (doc_lengths (build example_docs)) = [4, 4]"
    using finalize_average[of example_docs] d by (simp add: example_docs_def)
  then show ?thesis using finalize_average[of example_docs] d by (simp add: example_docs_def)
qed

section \<open>Scoring\<close>

lemma df_half_pos: "0 < real n + 0.5"
  by (simp add: add_nonneg_pos)

lemma idf_arg: "(real N - real df + 0.5) / (real df + 0.5) + 1.0 = (real N + 1) / (real df + 0.5)"
proof -
  have "real df + 0.5 \<noteq> 0" using df_half_pos[of df] by simp
  then show ?thesis by (simp add: field_simps)
qed

lemma compute_idf_eq:
  assumes "retriever_index r = Some idx"
  shows "compute_idf r t = Inr (idf_spec (doc_count idx) (get_document_frequency idx t))"
proof -
  let ?df = "get_document_frequency idx t" and ?N = "doc_count idx"
  have nz: "real ?df + 0.5 \<noteq> 0" using df_half_pos[of ?df] by simp
  have "0 < real ?N + 1" by (simp add: add_nonneg_pos)
  then have "0 < (real ?N + 1) / (real ?df + 0.5)"
    using df_half_pos[of ?df] by (rule divide_pos_pos)
  then have pos: "\<not> (real ?N - real ?df + 0.5) / (real ?df + 0.5) + 1.0 \<le> 0"
    by (simp only: idf_arg not_le)
  show ?thesis
    using assms nz pos by (simp add: compute_idf_def idf_spec_def py_div_def py_log_def Let_def)
qed

lemma idf_spec_pos: "1 \<le> df \<Longrightarrow> df \<le> N \<Longrightarrow> 0 < idf_spec N df"
proof -
  assume a: "1 \<le> df" "df \<le> N"
  have "real df + 0.5 < real N + 1" using a by simp
  moreover have "0 < real df + 0.5" by (rule df_half_pos)
  ultimately have "1 < (real N + 1) / (real df + 0.5)" by (simp add: field_simps)
  then have "0 < ln ((real N + 1) / (real df + 0.5))" by simp
  moreover have "idf_spec N df = ln ((real N + 1) / (real df + 0.5))"
    using a unfolding idf_spec_def idf_arg by simp
  ultimately show ?thesis by (simp only:)
qed

lemma idf_spec_nonneg: "df \<le> N \<Longrightarrow> 0 \<le> idf_spec N df"
  using idf_spec_pos[of df N] by (cases "df = 0") (simp_all add: idf_spec_def less_imp_le)

lemma denominator_pos:
  assumes "valid_params r" "0 < avgdl" "tf \<noteq> 0"
  shows "0 < real tf + k1 r * (1 - b r + b r * (real dl / avgdl))"
proof -
  have "0 \<le> b r * (real dl / avgdl)" using assms by (simp add: valid_params_def)
  then have "0 \<le> 1 - b r + b r * (real dl / avgdl)" using assms by (simp add: valid_params_def)
  then have "0 \<le> k1 r * (1 - b r + b r * (real dl / avgdl))" using assms by (simp add: valid_params_def)
  moreover have "0 < real tf" using assms by simp
  ultimately show ?thesis by linarith
qed

lemma score_terms_closed:
  assumes "retriever_index r = Some idx'" "idx' = idx" "valid_params r" "0 < avgdl"
  shows "score_terms r idx d dl avgdl qt s = Inr (s + (\<Sum>t\<leftarrow>qt. term_score r idx d dl avgdl t))"
proof (induction qt arbitrary: s)
  case Nil
  then show ?case by simp
next
  case (Cons t qt)
  have idf: "compute_idf r t = Inr (idf_spec (doc_count idx) (get_document_frequency idx t))"
    using compute_idf_eq assms(1,2) by simp
  show ?case
  proof (cases "idf_spec (doc_count idx) (get_document_frequency idx t) = 0 \<or> find_tf (get_postings idx t) d = 0")
    case True
    then show ?thesis using idf Cons.IH by (auto simp: term_score_def)
  next
    case False
    then have "0 < real (find_tf (get_postings idx t) d) + k1 r * (1 - b r + b r * (real dl / avgdl))"
      using denominator_pos[OF assms(3,4)] by simp
    then show ?thesis
      using False idf assms(4) Cons.IH
      by (simp add: term_score_def py_div_def Let_def add.assoc)
  qed
qed

lemma compute_bm25_score_closed:
  assumes "retriever_index r = Some idx" "valid_params r"
    and "get_or (doc_lengths idx) 0 d = 0 \<or> 0 < avg_doc_length idx"
  shows "compute_bm25_score r qt d =
           Inr (if get_or (doc_lengths idx) 0 d = 0 then 0
                else (\<Sum>t\<leftarrow>qt. term_score r idx d (get_or (doc_lengths idx) 0 d) (avg_doc_length idx) t))"
proof (cases "get_or (doc_lengths idx) 0 d = 0")
  case True
  then show ?thesis using assms(1) by (simp add: compute_bm25_score_def)
next
  case False
  with assms(3) have "0 < avg_doc_length idx" by simp
  from score_terms_closed[OF assms(1) refl assms(2) this]
  show ?thesis using False assms(1) by (simp add: compute_bm25_score_def)
qed

lemma term_contrib_mono:
  assumes "valid_params r" "0 < avgdl" "0 \<le> idf" "tf \<le> tf'"
  shows "(if idf = 0 \<or> tf = 0 then 0
          else idf * (real tf * (k1 r + 1) / (real tf + k1 r * (1 - b r + b r * (real dl / avgdl)))))
       \<le> (if idf = 0 \<or> tf' = 0 then 0
          else idf * (real tf' * (k1 r + 1) / (real tf' + k1 r * (1 - b r + b r * (real dl / avgdl)))))"
proof -
  define K where "K = k1 r * (1 - b r + b r * (real dl / avgdl))"
  have k1: "0 \<le> k1 r + 1" using assms(1) by (simp add: valid_params_def)
  have K: "0 \<le> K"
  proof -
    have "0 \<le> b r * (real dl / avgdl)" using assms by (simp add: valid_params_def)
    then have "0 \<le> 1 - b r + b r * (real dl / avgdl)" using assms by (simp add: valid_params_def)
    then show ?thesis unfolding K_def using assms by (simp add: valid_params_def)
  qed
  have nonneg: "0 \<le> idf * (real m * (k1 r + 1) / (real m + K))" for m
    using assms(3) k1 K by simp
  show ?thesis
  proof (cases "idf = 0 \<or> tf = 0")
    case True
    then show ?thesis using nonneg[of tf'] by (auto simp: K_def)
  next
    case False
    then have pos: "0 < real tf" "0 < real tf'" using assms(4) by simp_all
    have "real tf * (real tf' + K) \<le> real tf' * (real tf + K)"
    proof -
      have "real tf * K \<le> real tf' * K" using assms(4) K by (simp add: mult_right_mono)
      then show ?thesis by (simp add: algebra_simps)
    qed
    then have "real tf / (real tf + K) \<le> real tf' / (real tf' + K)"
      using pos K by (simp add: field_simps)
    then have "real tf * (k1 r + 1) / (real tf + K) \<le> real tf' * (k1 r + 1) / (real tf' + K)"
      using k1 mult_right_mono[of "real tf / (real tf + K)" "real tf' / (real tf' + K)" "k1 r + 1"]
      by simp
    then have "idf * (real tf * (k1 r + 1) / (real tf + K)) \<le> idf * (real tf' * (k1 r + 1) / (real tf' + K))"
      using assms(3) by (rule mult_left_mono)
    then show ?thesis using False pos by (simp add: K_def)
  qed
qed

lemma bump_tf_fields [simp]:
  "doc_lengths (bump_tf t d n idx) = doc_lengths idx"
  "doc_count (bump_tf t d n idx) = doc_count idx"
  "avg_doc_length (bump_tf t d n idx) = avg_doc_length idx"
  "get_document_frequency (bump_tf t d n idx) t' = get_document_frequency idx t'"
  by (simp_all add: bump_tf_def get_document_frequency_def)

lemma map_of_map_keyed:
  "map_of (map (\<lambda>(k, v). (k, f k v)) al) k = map_option (f k) (map_of al k)"
  by (induction al) auto

lemma bump_tf_postings:
  "get_postings (bump_tf t d n idx) t' =
     (if t' = t then map (\<lambda>(pd, freq). (pd, if pd = d then freq + n else freq)) (get_postings idx t)
      else get_postings idx t')"
  by (cases "map_of (index idx) t'")
     (auto simp: get_postings_def bump_tf_def get_or_def map_of_map_keyed)

lemma find_tf_bump:
  "find_tf ps d \<le> find_tf (map (\<lambda>(pd, freq). (pd, if pd = d then freq + n else freq)) ps) d"
  by (induction ps d rule: find_tf.induct) auto

lemma term_score_bump:
  assumes "valid_params r" "0 < avg_doc_length idx"
    and "get_document_frequency idx t' \<le> doc_count idx"
  shows "term_score r idx d dl (avg_doc_length idx) t'
       \<le> term_score r (bump_tf t d n idx) d dl (avg_doc_length idx) t'"
proof -
  have tf: "find_tf (get_postings idx t') d \<le> find_tf (get_postings (bump_tf t d n idx) t') d"
    by (simp add: bump_tf_postings find_tf_bump)
  have idf: "0 \<le> idf_spec (doc_count idx) (get_document_frequency idx t')"
    using assms(3) by (rule idf_spec_nonneg)
  show ?thesis
    unfolding term_score_def Let_def bump_tf_fields
    using term_contrib_mono[OF assms(1,2) idf tf] by simp
qed

lemma build_df_le: "get_document_frequency (build docs) t \<le> doc_count (build docs)"
  by (simp add: build_df build_doc_count)

lemma get_or_member: "get_or al dflt k \<noteq> dflt \<Longrightarrow> (k, get_or al dflt k) \<in> set al"
  by (cases "map_of al k") (auto simp: get_or_def dest: map_of_SomeD)

lemma build_avg_pos:
  assumes "get_or (doc_lengths (build docs)) 0 d \<noteq> 0"
  shows "0 < avg_doc_length (finalize (build docs))"
proof -
  let ?al = "doc_lengths (build docs)"
  from get_or_member[OF assms] have "get_or ?al 0 d \<in> set (map snd ?al)" by force
  then have "get_or ?al 0 d \<le> sum_list (map snd ?al)" by (simp add: member_le_sum_list)
  with assms have s: "0 < sum_list (map snd ?al)" by simp
  have "docs \<noteq> []" using assms by (auto simp: build_def add_all_def get_or_def)
  then have "0 < doc_count (build docs)" by (simp add: build_doc_count)
  with s show ?thesis by (simp add: finalize_def)
qed

lemma term_score_params:
  "k1 r' = k1 r \<Longrightarrow> b r' = b r \<Longrightarrow> term_score r' idx d dl avgdl t = term_score r idx d dl avgdl t"
  by (simp add: term_score_def Let_def)

text \<open>
  C7, as the code has it: with the tunables in the range of BM25 (\<open>k1\<close> not
  negative, \<open>b\<close> between 0 and 1), for a finalized index, a document and a
  query, raising the term frequency of a term in the document's posting, all else
  fixed, does not lower the score \<open>compute_bm25_score\<close> gives the document; both
  scores are returned without error.
\<close>

theorem bm25_monotone_in_tf:
  assumes "valid_params r"
  shows "\<exists>s s'. compute_bm25_score (r\<lparr>retriever_index := Some (finalize (build docs))\<rparr>) qt d = Inr s
           \<and> compute_bm25_score
                (r\<lparr>retriever_index := Some (bump_tf term d n (finalize (build docs)))\<rparr>) qt d = Inr s'
           \<and> s \<le> s'"
proof -
  let ?idx = "finalize (build docs)"
  let ?idx' = "bump_tf term d n ?idx"
  let ?r = "r\<lparr>retriever_index := Some ?idx\<rparr>"
  let ?r' = "r\<lparr>retriever_index := Some ?idx'\<rparr>"
  let ?dl = "get_or (doc_lengths ?idx) 0 d"
  have vp: "valid_params ?r" "valid_params ?r'" using assms by (simp_all add: valid_params_def)
  have avg: "?dl = 0 \<or> 0 < avg_doc_length ?idx" using build_avg_pos[of docs d] by auto
  have s1: "compute_bm25_score ?r qt d =
      Inr (if ?dl = 0 then 0 else (\<Sum>t\<leftarrow>qt. term_score ?r ?idx d ?dl (avg_doc_length ?idx) t))"
    by (rule compute_bm25_score_closed[OF _ vp(1) avg]) simp
  have s2: "compute_bm25_score ?r' qt d =
      Inr (if ?dl = 0 then 0 else (\<Sum>t\<leftarrow>qt. term_score ?r' ?idx' d ?dl (avg_doc_length ?idx) t))"
    using compute_bm25_score_closed[of ?r' ?idx' d qt] vp(2) avg by simp
  have le: "?dl \<noteq> 0 \<Longrightarrow>
      (\<Sum>t\<leftarrow>qt. term_score ?r ?idx d ?dl (avg_doc_length ?idx) t)
      \<le> (\<Sum>t\<leftarrow>qt. term_score ?r' ?idx' d ?dl (avg_doc_length ?idx) t)"
  proof (rule sum_list_mono)
    fix t
    assume "?dl \<noteq> 0"
    with avg have pos: "0 < avg_doc_length ?idx" by simp
    have dfle: "get_document_frequency ?idx t \<le> doc_count ?idx" by (simp add: build_df_le)
    have "term_score ?r' ?idx' d ?dl (avg_doc_length ?idx) t = term_score ?r ?idx' d ?dl (avg_doc_length ?idx) t"
      by (rule term_score_params) simp_all
    then show "term_score ?r ?idx d ?dl (avg_doc_length ?idx) t
        \<le> term_score ?r' ?idx' d ?dl (avg_doc_length ?idx) t"
      using term_score_bump[OF vp(1) pos dfle, of d ?dl "term" n] by simp
  qed
  show ?thesis using s1 s2 le by auto
qed

lemma find_tf_absent: "d \<notin> fst ` set ps \<Longrightarrow> find_tf ps d = 0"
  by (induction ps d rule: find_tf.induct) auto

lemma find_tf_build:
  assumes "distinct (map fst docs)"
  shows "find_tf (get_postings (build docs) t) d = corpus_tf docs d t"
  unfolding build_postings corpus_tf_def using assms
proof (induction docs)
  case Nil
  then show ?case by simp
next
  case (Cons x docs)
  obtain d' toks md where x: "x = (d', toks, md)" by (cases x)
  from Cons.prems x have nd: "d' \<notin> fst ` set docs" and dd: "distinct (map fst docs)" by auto
  show ?case
  proof (cases "d' = d")
    case True
    with nd have "d \<notin> fst ` set (map (\<lambda>(d, toks, md). (d, count_list toks t))
                     (filter (\<lambda>(d, toks, md). t \<in> set toks) docs))"
      by (auto simp: image_iff)
    then have "find_tf (map (\<lambda>(d, toks, md). (d, count_list toks t))
                     (filter (\<lambda>(d, toks, md). t \<in> set toks) docs)) d = 0"
      by (rule find_tf_absent)
    with True show ?thesis by (simp add: x count_list_0_iff)
  next
    case False
    then show ?thesis using Cons.IH[OF dd] by (simp add: x)
  qed
qed

lemma doc_len_build:
  assumes "distinct (map fst docs)"
  shows "get_or (doc_lengths (build docs)) 0 d = corpus_doc_len docs d"
  unfolding build_doc_lengths[OF assms] corpus_doc_len_def get_or_def
  by (induction docs) auto

lemma term_score_spec:
  "term_score r idx d dl avgdl t =
     bm25_term_spec (k1 r) (b r) (idf_spec (doc_count idx) (get_document_frequency idx t))
       (real (find_tf (get_postings idx t) d)) (real dl) avgdl"
  by (simp add: term_score_def bm25_term_spec_def Let_def)

lemma corpus_tf_le_len: "corpus_tf docs d t \<le> corpus_doc_len docs d"
  by (auto simp: corpus_tf_def corpus_doc_len_def count_le_length split: option.splits)

lemma bm25_term_spec_zero: "idf = 0 \<or> tf = 0 \<Longrightarrow> bm25_term_spec k bb idf tf dl avgdl = 0"
  by (auto simp: bm25_term_spec_def)

lemma bm25_term_spec_nonneg:
  assumes "0 \<le> k" "0 \<le> bb" "bb \<le> 1" "0 \<le> idf" "0 \<le> tf" "0 \<le> dl" "0 \<le> avgdl"
  shows "0 \<le> bm25_term_spec k bb idf tf dl avgdl"
proof -
  have "0 \<le> bb * dl / avgdl" using assms by simp
  then have "0 \<le> 1 - bb + bb * dl / avgdl" using assms by simp
  then have "0 \<le> tf + k * (1 - bb + bb * dl / avgdl)" using assms by simp
  moreover have "0 \<le> idf * (tf * (k + 1))" using assms by simp
  ultimately show ?thesis unfolding bm25_term_spec_def by (rule divide_nonneg_nonneg[rotated])
qed

lemma corpus_df_le: "corpus_df docs t \<le> length docs"
  by (simp add: corpus_df_def)

text \<open>
  C3, as the code has it: on a finalized index with positive average document
  length, built from documents with pairwise distinct ids, and with the tunables in
  the range of BM25 (\<open>k1\<close> not negative, \<open>b\<close> between 0 and 1),
  \<open>compute_bm25_score\<close> returns the sum over the query terms of
  \<open>IDF \<times> (tf \<times> (k1 + 1)) / (tf + k1 \<times> (1 - b + b \<times> docLen / avgDocLen))\<close>, with
  \<open>tf\<close> the number of occurrences of the term in the document,
  \<open>IDF = ln ((N - df + 0.5) / (df + 0.5) + 1)\<close> for \<open>df \<ge> 1\<close> and 0 for \<open>df = 0\<close>;
  a term with \<open>df = 0\<close> or \<open>tf = 0\<close> contributes 0, and the score is not negative.
\<close>

theorem compute_bm25_score_formula:
  assumes "distinct (map fst docs)" and "valid_params r"
    and "retriever_index r = Some (finalize (build docs))"
    and "0 < avg_doc_length (finalize (build docs))"
  shows "compute_bm25_score r qt d = Inr (bm25_spec r docs qt d)
       \<and> (\<forall>t. corpus_df docs t = 0 \<or> corpus_tf docs d t = 0 \<longrightarrow>
              bm25_term_spec (k1 r) (b r) (idf_spec (length docs) (corpus_df docs t))
                (real (corpus_tf docs d t)) (real (corpus_doc_len docs d)) (corpus_avg_len docs) = 0)
       \<and> 0 \<le> bm25_spec r docs qt d"
proof -
  let ?idx = "finalize (build docs)"
  have ne: "docs \<noteq> []" using assms(4) by (auto simp: finalize_def build_avg build_doc_count)
  have avg: "avg_doc_length ?idx = corpus_avg_len docs" by (rule avg_build[OF assms(1) ne])
  have dl: "get_or (doc_lengths ?idx) 0 d = corpus_doc_len docs d"
    using doc_len_build[OF assms(1)] by simp
  have ts: "term_score r ?idx d (corpus_doc_len docs d) (corpus_avg_len docs) t =
       bm25_term_spec (k1 r) (b r) (idf_spec (length docs) (corpus_df docs t))
         (real (corpus_tf docs d t)) (real (corpus_doc_len docs d)) (corpus_avg_len docs)" for t
    unfolding term_score_spec
    by (simp add: build_doc_count build_df corpus_df_def find_tf_build[OF assms(1)])
  have closed: "compute_bm25_score r qt d =
      Inr (if corpus_doc_len docs d = 0 then 0 else bm25_spec r docs qt d)"
    using compute_bm25_score_closed[OF assms(3,2), of d qt] assms(4)
    unfolding dl avg ts bm25_spec_def by simp
  have zero: "bm25_spec r docs qt d = 0" if "corpus_doc_len docs d = 0"
  proof -
    have "corpus_tf docs d t = 0" for t using corpus_tf_le_len[of docs d t] that by simp
    then show ?thesis by (simp add: bm25_spec_def bm25_term_spec_zero)
  qed
  have eq: "compute_bm25_score r qt d = Inr (bm25_spec r docs qt d)"
    using closed zero by auto
  have z: "bm25_term_spec (k1 r) (b r) (idf_spec (length docs) (corpus_df docs t))
                (real (corpus_tf docs d t)) (real (corpus_doc_len docs d)) (corpus_avg_len docs) = 0"
    if "corpus_df docs t = 0 \<or> corpus_tf docs d t = 0" for t
    using that by (auto simp: bm25_term_spec_zero idf_spec_def)
  have nn: "0 \<le> bm25_spec r docs qt d"
    unfolding bm25_spec_def
  proof (rule sum_list_nonneg)
    fix x
    assume "x \<in> set (map (\<lambda>t. bm25_term_spec (k1 r) (b r) (idf_spec (length docs) (corpus_df docs t))
                (real (corpus_tf docs d t)) (real (corpus_doc_len docs d)) (corpus_avg_len docs)) qt)"
    then obtain t where x: "x = bm25_term_spec (k1 r) (b r) (idf_spec (length docs) (corpus_df docs t))
                (real (corpus_tf docs d t)) (real (corpus_doc_len docs d)) (corpus_avg_len docs)"
      by auto
    have "0 \<le> corpus_avg_len docs" using assms(4) avg by simp
    then show "0 \<le> x"
      unfolding x using assms(2) idf_spec_nonneg[OF corpus_df_le[of docs t]]
      by (intro bm25_term_spec_nonneg) (simp_all add: valid_params_def)
  qed
  from eq z nn show ?thesis by blast
qed

lemma example_distinct: "distinct (map fst example_docs)"
  by (simp add: example_docs_def)

lemma example_valid: "valid_params example_retriever"
  by (simp add: example_retriever_def BM25Retriever_init_def valid_params_def)

lemma example_index: "retriever_index example_retriever = Some (finalize (build example_docs))"
  by (simp add: example_retriever_def)

lemma example_avg: "avg_doc_length (finalize (build example_docs)) = 4"
proof -
  have "example_docs \<noteq> []" by (simp add: example_docs_def)
  from avg_build[OF example_distinct this] show ?thesis
    by (simp add: corpus_avg_len_def example_docs_def)
qed

theorem compute_bm25_score_formula_witness:
  "distinct (map fst example_docs) \<and> valid_params example_retriever
   \<and> retriever_index example_retriever = Some (finalize (build example_docs))
   \<and> 0 < avg_doc_length (finalize (build example_docs))
   \<and> compute_bm25_score example_retriever [u ''cheap'', u ''car''] ''en_0''
       = Inr (bm25_spec example_retriever example_docs [u ''cheap'', u ''car''] ''en_0'')
   \<and> 0 \<le> bm25_spec example_retriever example_docs [u ''cheap'', u ''car''] ''en_0''"
proof -
  have a: "0 < avg_doc_length (finalize (build example_docs))" by (simp add: example_avg)
  show ?thesis
    using compute_bm25_score_formula[OF example_distinct example_valid example_index a,
        of "[u ''cheap'', u ''car'']" "''en_0''"]
      example_distinct example_valid example_index a
    by blast
qed

theorem bm25_monotone_in_tf_witness:
  "valid_params example_retriever
   \<and> (\<exists>s s'. compute_bm25_score
                (example_retriever\<lparr>retriever_index := Some (finalize (build example_docs))\<rparr>)
                [u ''cheap'', u ''car''] ''en_0'' = Inr s
           \<and> compute_bm25_score
                (example_retriever\<lparr>retriever_index :=
                   Some (bump_tf (u ''car'') ''en_0'' 2 (finalize (build example_docs)))\<rparr>)
                [u ''cheap'', u ''car''] ''en_0'' = Inr s'
           \<and> s \<le> s')"
  using bm25_monotone_in_tf[OF example_valid, of example_docs "[u ''cheap'', u ''car'']" "''en_0''" "u ''car''" 2]
    example_valid
  by blast

section \<open>Lookups and persistence\<close>

text \<open>
  C9: a term that occurs in no document added to the index has the empty posting
  list and document frequency 0, before and after \<open>finalize\<close>; and \<open>preprocess\<close>
  returns the empty list for the empty string and for a value that is not a string.
  None of these operations has an error to return.
\<close>

theorem unknown_lookups:
  assumes "list_all (\<lambda>(d, toks, md). t \<notin> set toks) docs"
  shows "get_postings (build docs) t = [] \<and> get_document_frequency (build docs) t = 0
       \<and> get_postings (finalize (build docs)) t = []
       \<and> get_document_frequency (finalize (build docs)) t = 0
       \<and> preprocess (PStr []) lang = [] \<and> preprocess PNone lang = []
       \<and> preprocess (PInt i) lang = []"
proof -
  have "filter (\<lambda>(d, toks, md). t \<in> set toks) docs = []"
    using assms by (auto simp: filter_empty_conv list_all_iff)
  then show ?thesis by (simp add: build_postings build_df preprocess_def)
qed

theorem unknown_lookups_witness:
  "list_all (\<lambda>(d, toks, md). u ''bus'' \<notin> set toks) example_docs
   \<and> get_postings (build example_docs) (u ''bus'') = []
   \<and> get_document_frequency (build example_docs) (u ''bus'') = 0
   \<and> preprocess PNone ''auto'' = []"
proof -
  have h: "list_all (\<lambda>(d, toks, md). u ''bus'' \<notin> set toks) example_docs"
    by (simp add: example_docs_def u_def)
  show ?thesis using unknown_lookups[OF h, of "''auto''"] h by simp
qed

text \<open>
  C6: saving an index and loading the file back gives an index with the same
  posting list and document frequency for every term and the same average document
  length, for a pickle whose \<open>loads\<close> undoes its \<open>dumps\<close>.
\<close>

theorem save_load_roundtrip:
  assumes "\<forall>x. loads (dumps x) = Inr x"
  shows "\<exists>idx'. load loads filepath (save dumps idx filepath fs) = Inr idx'
           \<and> (\<forall>t. get_postings idx' t = get_postings idx t
                  \<and> get_document_frequency idx' t = get_document_frequency idx t)
           \<and> avg_doc_length idx' = avg_doc_length idx"
proof -
  have "load loads filepath (save dumps idx filepath fs) = Inr idx"
    using assms by (simp add: load_def save_def)
  then show ?thesis by simp
qed

theorem save_load_roundtrip_witness:
  "(\<forall>x::pickle_data. (Inr ((\<lambda>y. y) x) :: py_error + pickle_data) = Inr x)
   \<and> (\<exists>idx'. load Inr ''combined_index.pkl''
                (save (\<lambda>y. y) (finalize (build example_docs)) ''combined_index.pkl'' Map.empty) = Inr idx'
           \<and> (\<forall>t. get_postings idx' t = get_postings (finalize (build example_docs)) t
                  \<and> get_document_frequency idx' t = get_document_frequency (finalize (build example_docs)) t)
           \<and> avg_doc_length idx' = avg_doc_length (finalize (build example_docs)))"
proof -
  have h: "\<forall>x::pickle_data. (Inr ((\<lambda>y. y) x) :: py_error + pickle_data) = Inr x" by simp
  from save_load_roundtrip[of Inr "\<lambda>y. y" "''combined_index.pkl''" "finalize (build example_docs)" Map.empty, OF h]
  show ?thesis using h by blast
qed

section \<open>Searching\<close>

lemma foldl_set_add_set: "set (foldl (\<lambda>acc d. set_add d acc) acc xs) = set acc \<union> set xs"
  by (induction xs arbitrary: acc) (auto simp: set_add_def)

lemma foldl_set_add_distinct:
  "distinct acc \<Longrightarrow> distinct (foldl (\<lambda>acc d. set_add d acc) acc xs)"
  by (induction xs arbitrary: acc) (auto simp: set_add_def)

lemma candidate_docs_set:
  "set (candidate_docs idx qt) = (\<Union>t\<in>set qt. fst ` set (get_postings idx t))"
  by (auto simp: candidate_docs_def foldl_set_add_set)

lemma candidate_docs_distinct: "distinct (candidate_docs idx qt)"
  by (simp add: candidate_docs_def foldl_set_add_distinct)

lemma score_candidates_step:
  assumes "score_candidates r idx qt (d # ds) = Inr scored"
  shows "\<exists>s. compute_bm25_score r qt d = Inr s
           \<and> (if 0 < s
               then \<exists>h rest. scored = h # rest \<and> hit_doc_id h = d \<and> hit_score h = s
                      \<and> score_candidates r idx qt ds = Inr rest
               else score_candidates r idx qt ds = Inr scored)"
proof (cases "compute_bm25_score r qt d")
  case (Inl e)
  with assms show ?thesis by simp
next
  case (Inr s)
  show ?thesis
  proof (cases "0 < s")
    case False
    with Inr assms show ?thesis by simp
  next
    case True
    with Inr assms show ?thesis
      by (simp split: option.splits sum.splits) force
  qed
qed

lemma score_candidates_ids:
  "score_candidates r idx qt ds = Inr scored \<Longrightarrow>
     set (map hit_doc_id scored) \<subseteq> set ds
     \<and> (\<forall>h\<in>set scored. compute_bm25_score r qt (hit_doc_id h) = Inr (hit_score h) \<and> 0 < hit_score h)"
proof (induction ds arbitrary: scored)
  case Nil
  then show ?case by simp
next
  case (Cons d ds)
  from score_candidates_step[OF Cons.prems] obtain s where s: "compute_bm25_score r qt d = Inr s"
    and step: "if 0 < s
               then \<exists>h rest. scored = h # rest \<and> hit_doc_id h = d \<and> hit_score h = s
                      \<and> score_candidates r idx qt ds = Inr rest
               else score_candidates r idx qt ds = Inr scored"
    by blast
  show ?case
  proof (cases "0 < s")
    case True
    with step obtain h rest where h: "scored = h # rest" "hit_doc_id h = d" "hit_score h = s"
      "score_candidates r idx qt ds = Inr rest" by auto
    from Cons.IH[OF h(4)] show ?thesis using h s True by auto
  next
    case False
    with step have "score_candidates r idx qt ds = Inr scored" by simp
    from Cons.IH[OF this] show ?thesis by auto
  qed
qed

lemma score_candidates_ties:
  "score_candidates r idx qt ds = Inr scored \<Longrightarrow> 0 < s \<Longrightarrow>
     map hit_doc_id (filter (\<lambda>h. hit_score h = s) scored)
       = filter (\<lambda>d. compute_bm25_score r qt d = Inr s) ds"
proof (induction ds arbitrary: scored)
  case Nil
  then show ?case by simp
next
  case (Cons d ds)
  from score_candidates_step[OF Cons.prems(1)] obtain s' where s: "compute_bm25_score r qt d = Inr s'"
    and step: "if 0 < s'
               then \<exists>h rest. scored = h # rest \<and> hit_doc_id h = d \<and> hit_score h = s'
                      \<and> score_candidates r idx qt ds = Inr rest
               else score_candidates r idx qt ds = Inr scored"
    by blast
  show ?case
  proof (cases "0 < s'")
    case True
    with step obtain h rest where h: "scored = h # rest" "hit_doc_id h = d" "hit_score h = s'"
      "score_candidates r idx qt ds = Inr rest" by auto
    from Cons.IH[OF h(4) Cons.prems(2)] show ?thesis using h(1,2,3) s by simp
  next
    case False
    with step have sc: "score_candidates r idx qt ds = Inr scored" by simp
    from False Cons.prems(2) have "s' \<noteq> s" by auto
    with Cons.IH[OF sc Cons.prems(2)] show ?thesis using s by simp
  qed
qed

lemma annotate_keys:
  "map hit_doc_id (annotate xs) = map hit_doc_id xs"
  "map hit_score (annotate xs) = map hit_score xs"
  by (cases xs; simp add: annotate_def Let_def scored_doc.defs)+

lemma annotate_length: "length (annotate xs) = length xs"
  by (cases xs) (simp_all add: annotate_def Let_def)

lemma slice_to_take: "\<exists>m. slice_to xs k = take m xs"
  by (auto simp: slice_to_def)

lemma slice_to_length: "0 \<le> k \<Longrightarrow> length (slice_to xs k) \<le> nat k"
  by (simp add: slice_to_def)

lemma descending_iff:
  "sorted_wrt (\<lambda>x y. hit_score y \<le> hit_score x) xs = sorted (map uminus (map hit_score xs))"
  by (simp add: sorted_wrt_map sorted_wrt_iff_nth_less)

lemma annotate_filter_ids:
  "map hit_doc_id (filter (\<lambda>h. hit_score h = s) (annotate xs))
     = map hit_doc_id (filter (\<lambda>h. hit_score h = s) xs)"
  by (cases xs) (simp_all add: annotate_def Let_def filter_map comp_def scored_doc.defs)

lemma filter_take_prefix: "\<exists>rest. filter P xs = filter P (take m xs) @ rest"
proof -
  have "filter P xs = filter P (take m xs @ drop m xs)" by simp
  also have "\<dots> = filter P (take m xs) @ filter P (drop m xs)" by (simp only: filter_append)
  finally show ?thesis by blast
qed

lemma sort_desc_stable:
  "filter (\<lambda>h. hit_score h = s) (sort_key (\<lambda>x. - hit_score x) xs) = filter (\<lambda>h. hit_score h = s) xs"
  using sort_key_stable[of "\<lambda>x. - hit_score x" "- s" xs] by simp

lemma sort_desc_sorted:
  "sorted_wrt (\<lambda>x y. hit_score y \<le> hit_score x) (sort_key (\<lambda>x. - hit_score x) xs)"
  using sorted_sort_key[of "\<lambda>x. - hit_score x" xs] by (simp add: sorted_wrt_map sorted_wrt_iff_nth_less)

lemma descending_annotate:
  "sorted_wrt (\<lambda>x y. hit_score y \<le> hit_score x) xs
   \<Longrightarrow> sorted_wrt (\<lambda>x y. hit_score y \<le> hit_score x) (annotate xs)"
  by (simp add: descending_iff annotate_keys)

lemma search_unfold:
  assumes "retriever_index r = Some idx" and "preprocess query lang \<noteq> []"
    and "search r iter_order query top_k lang = Inr resp"
  shows "\<exists>scored. score_candidates r idx (preprocess query lang)
                    (iter_order (candidate_docs idx (preprocess query lang))) = Inr scored
           \<and> results resp = annotate (slice_to (sort_key (\<lambda>x. - hit_score x) scored) top_k)
           \<and> total_results resp = length scored"
  using assms by (auto simp: search_def Let_def split: sum.splits)

lemma search_empty_query:
  assumes "retriever_index r = Some idx" and "preprocess query lang = []"
  shows "search r iter_order query top_k lang =
           Inr \<lparr>resp_query = query, resp_query_terms = None, results = [], total_results = 0\<rparr>"
  using assms by (simp add: search_def)

text \<open>
  C2, as the code has it: the list \<open>search\<close> returns contains only documents that
  occur in the posting list of a query term, is sorted by descending score, has at
  most \<open>top_k\<close> entries when \<open>top_k\<close> is not negative, and lists the documents of
  one score in the order in which the loop visits the candidate set (a prefix of
  them, in that order).
\<close>

theorem search_results_ranked:
  assumes "set_iteration iter_order" and "retriever_index r = Some idx"
    and "search r iter_order query top_k lang = Inr resp"
  shows "(\<forall>h\<in>set (results resp).
            \<exists>t\<in>set (preprocess query lang). hit_doc_id h \<in> fst ` set (get_postings idx t))
       \<and> sorted_wrt (\<lambda>x y. hit_score y \<le> hit_score x) (results resp)
       \<and> (0 \<le> top_k \<longrightarrow> length (results resp) \<le> nat top_k)
       \<and> (\<forall>s. \<exists>rest.
             filter (\<lambda>d. compute_bm25_score r (preprocess query lang) d = Inr s)
               (iter_order (candidate_docs idx (preprocess query lang)))
             = map hit_doc_id (filter (\<lambda>h. hit_score h = s) (results resp)) @ rest)"
proof (cases "preprocess query lang = []")
  case True
  from search_empty_query[OF assms(2) True, of iter_order top_k] assms(3)
  have "results resp = []" by auto
  then show ?thesis by simp
next
  case False
  let ?qt = "preprocess query lang"
  let ?ds = "iter_order (candidate_docs idx ?qt)"
  from search_unfold[OF assms(2) False assms(3)] obtain scored where
    sc: "score_candidates r idx ?qt ?ds = Inr scored"
    and res: "results resp = annotate (slice_to (sort_key (\<lambda>x. - hit_score x) scored) top_k)"
    by blast
  let ?sorted = "sort_key (\<lambda>x. - hit_score x) scored"
  obtain m where m: "slice_to ?sorted top_k = take m ?sorted" using slice_to_take by blast
  have ids: "set (map hit_doc_id scored) \<subseteq> set ?ds"
    and pos: "\<forall>h\<in>set scored. 0 < hit_score h"
    using score_candidates_ids[OF sc] by auto
  have cand: "set ?ds = (\<Union>t\<in>set ?qt. fst ` set (get_postings idx t))"
    using assms(1) candidate_docs_distinct[of idx ?qt]
    by (simp add: set_iteration_def candidate_docs_set)
  have p1: "\<forall>h\<in>set (results resp). \<exists>t\<in>set ?qt. hit_doc_id h \<in> fst ` set (get_postings idx t)"
  proof
    fix h
    assume "h \<in> set (results resp)"
    then have "hit_doc_id h \<in> set (map hit_doc_id (results resp))" by simp
    then have "hit_doc_id h \<in> set (take m (map hit_doc_id ?sorted))"
      by (simp add: res m annotate_keys take_map)
    then have "hit_doc_id h \<in> set (map hit_doc_id ?sorted)" by (rule in_set_takeD)
    then have "hit_doc_id h \<in> set (map hit_doc_id scored)" by simp
    with ids cand show "\<exists>t\<in>set ?qt. hit_doc_id h \<in> fst ` set (get_postings idx t)" by blast
  qed
  have p2: "sorted_wrt (\<lambda>x y. hit_score y \<le> hit_score x) (results resp)"
    unfolding res m by (intro descending_annotate sorted_wrt_take sort_desc_sorted)
  have p3: "0 \<le> top_k \<longrightarrow> length (results resp) \<le> nat top_k"
    by (simp add: res annotate_length slice_to_length)
  have p4: "\<exists>rest. filter (\<lambda>d. compute_bm25_score r ?qt d = Inr s) ?ds
             = map hit_doc_id (filter (\<lambda>h. hit_score h = s) (results resp)) @ rest" for s
  proof (cases "0 < s")
    case True
    obtain rest where "filter (\<lambda>h. hit_score h = s) ?sorted
        = filter (\<lambda>h. hit_score h = s) (take m ?sorted) @ rest"
      using filter_take_prefix by blast
    then have "map hit_doc_id (filter (\<lambda>h. hit_score h = s) scored)
        = map hit_doc_id (filter (\<lambda>h. hit_score h = s) (take m ?sorted)) @ map hit_doc_id rest"
      by (simp add: sort_desc_stable)
    then show ?thesis
      unfolding res m annotate_filter_ids score_candidates_ties[OF sc True, symmetric] by blast
  next
    case False
    have "filter (\<lambda>h. hit_score h = s) (take m ?sorted) = []"
    proof -
      have "\<forall>h\<in>set (take m ?sorted). hit_score h \<noteq> s"
        using pos False by (auto dest: in_set_takeD)
      then show ?thesis by (simp add: filter_empty_conv)
    qed
    then show ?thesis unfolding res m annotate_filter_ids by simp
  qed
  from p1 p2 p3 p4 show ?thesis by blast
qed

lemma term_score_nonneg:
  assumes "valid_params r" "0 < avgdl" "get_document_frequency idx t \<le> doc_count idx"
  shows "0 \<le> term_score r idx d dl avgdl t"
proof -
  have "0 \<le> bm25_term_spec (k1 r) (b r) (idf_spec (doc_count idx) (get_document_frequency idx t))
       (real (find_tf (get_postings idx t) d)) (real dl) avgdl"
    using assms idf_spec_nonneg[OF assms(3)]
    by (intro bm25_term_spec_nonneg) (simp_all add: valid_params_def)
  then show ?thesis by (simp add: term_score_spec)
qed

lemma term_score_pos:
  assumes "valid_params r" "0 < avgdl" "1 \<le> get_document_frequency idx t"
    and "get_document_frequency idx t \<le> doc_count idx" "find_tf (get_postings idx t) d \<noteq> 0"
  shows "0 < term_score r idx d dl avgdl t"
proof -
  have idf: "0 < idf_spec (doc_count idx) (get_document_frequency idx t)"
    using assms(3,4) by (rule idf_spec_pos)
  have den: "0 < real (find_tf (get_postings idx t) d) + k1 r * (1 - b r + b r * (real dl / avgdl))"
    using denominator_pos[OF assms(1,2,5)] .
  have num: "0 < real (find_tf (get_postings idx t) d) * (k1 r + 1)"
    using assms(1,5) by (simp add: valid_params_def)
  have "0 < idf_spec (doc_count idx) (get_document_frequency idx t)
          * (real (find_tf (get_postings idx t) d) * (k1 r + 1)
             / (real (find_tf (get_postings idx t) d) + k1 r * (1 - b r + b r * (real dl / avgdl))))"
    using idf num den by simp
  then show ?thesis using idf assms(5) by (simp add: term_score_def Let_def)
qed

lemma sum_list_pos_member:
  fixes f :: "'a \<Rightarrow> real"
  shows "\<forall>x\<in>set xs. 0 \<le> f x \<Longrightarrow> t \<in> set xs \<Longrightarrow> 0 < f t \<Longrightarrow> 0 < sum_list (map f xs)"
proof (induction xs)
  case Nil
  then show ?case by simp
next
  case (Cons a xs)
  have rest: "0 \<le> sum_list (map f xs)"
    using Cons.prems(1) by (intro sum_list_nonneg) auto
  have a: "0 \<le> f a" using Cons.prems(1) by simp
  show ?case
  proof (cases "t = a")
    case True
    with Cons.prems(3) rest show ?thesis by (simp add: add_pos_nonneg)
  next
    case False
    with Cons.prems have "0 < sum_list (map f xs)" by (intro Cons.IH) auto
    with a show ?thesis by (simp add: add_nonneg_pos)
  qed
qed

lemma score_candidates_all:
  assumes "\<forall>d\<in>set ds. (\<exists>s. compute_bm25_score r qt d = Inr s \<and> 0 < s)
                      \<and> (\<exists>md. map_of (documents idx) d = Some md \<and> has_keys md)"
  shows "\<exists>scored. score_candidates r idx qt ds = Inr scored \<and> length scored = length ds"
  using assms
proof (induction ds)
  case Nil
  then show ?case by simp
next
  case (Cons d ds)
  from Cons.prems obtain s md where s: "compute_bm25_score r qt d = Inr s" "0 < s"
    and md: "map_of (documents idx) d = Some md" "has_keys md" by auto
  from md(2) obtain ti ur la where keys: "map_of md ''title'' = Some ti"
    "map_of md ''url'' = Some ur" "map_of md ''language'' = Some la"
    by (auto simp: has_keys_def)
  from Cons.IH Cons.prems obtain rest where rest: "score_candidates r idx qt ds = Inr rest"
    "length rest = length ds" by auto
  show ?case using s md(1) keys rest by simp
qed

lemma built_candidate:
  assumes "d \<in> set (candidate_docs (finalize (build docs)) qt)"
  shows "\<exists>t\<in>set qt. \<exists>toks md. (d, toks, md) \<in> set docs \<and> t \<in> set toks"
proof -
  from assms obtain t where t: "t \<in> set qt"
    and d: "d \<in> fst ` set (get_postings (build docs) t)"
    by (auto simp: candidate_docs_set)
  from d obtain x where x: "x \<in> set (filter (\<lambda>(d, toks, md). t \<in> set toks) docs)"
    and fx: "fst ((\<lambda>(d, toks, md). (d, count_list toks t)) x) = d"
    unfolding build_postings by auto
  obtain d' toks md where xe: "x = (d', toks, md)" by (cases x)
  from x fx xe have "(d, toks, md) \<in> set docs" "t \<in> set toks" by auto
  with t show ?thesis by blast
qed

lemma built_candidate_score:
  assumes "distinct (map fst docs)" and "valid_params r"
    and "retriever_index r = Some (finalize (build docs))"
    and "d \<in> set (candidate_docs (finalize (build docs)) qt)"
  shows "\<exists>s. compute_bm25_score r qt d = Inr s \<and> 0 < s"
proof -
  let ?idx = "finalize (build docs)"
  from built_candidate[OF assms(4)] obtain t toks md where
    t: "t \<in> set qt" and mem: "(d, toks, md) \<in> set docs" and occ: "t \<in> set toks" by blast
  have look: "map_of docs d = Some (toks, md)" using assms(1) mem by (rule map_of_is_SomeI)
  have len: "corpus_doc_len docs d \<noteq> 0" using look occ by (auto simp: corpus_doc_len_def)
  then have dl: "get_or (doc_lengths ?idx) 0 d \<noteq> 0" using doc_len_build[OF assms(1), of d] by simp
  then have avg: "0 < avg_doc_length ?idx" using build_avg_pos[of docs d] by simp
  have closed: "compute_bm25_score r qt d =
      Inr (\<Sum>t\<leftarrow>qt. term_score r ?idx d (get_or (doc_lengths ?idx) 0 d) (avg_doc_length ?idx) t)"
    using compute_bm25_score_closed[OF assms(3,2), of d qt] avg dl by simp
  have dfle: "get_document_frequency ?idx t' \<le> doc_count ?idx" for t'
    by (simp add: build_df_le)
  have "(d, toks, md) \<in> set (filter (\<lambda>(d, toks, md). t \<in> set toks) docs)" using mem occ by simp
  then have "filter (\<lambda>(d, toks, md). t \<in> set toks) docs \<noteq> []"
    by (metis empty_iff empty_set)
  then have df1: "1 \<le> get_document_frequency ?idx t"
    by (simp add: build_df Suc_le_eq)
  have "corpus_tf docs d t \<noteq> 0" using look occ by (simp add: corpus_tf_def count_list_0_iff)
  then have tf: "find_tf (get_postings ?idx t) d \<noteq> 0" using find_tf_build[OF assms(1), of t d] by simp
  have "0 < (\<Sum>t\<leftarrow>qt. term_score r ?idx d (get_or (doc_lengths ?idx) 0 d) (avg_doc_length ?idx) t)"
  proof (rule sum_list_pos_member[OF _ t])
    show "\<forall>x\<in>set qt. 0 \<le> term_score r ?idx d (get_or (doc_lengths ?idx) 0 d) (avg_doc_length ?idx) x"
      using term_score_nonneg[OF assms(2) avg dfle] by blast
    show "0 < term_score r ?idx d (get_or (doc_lengths ?idx) 0 d) (avg_doc_length ?idx) t"
      using term_score_pos[OF assms(2) avg df1 dfle tf] .
  qed
  with closed show ?thesis by blast
qed

lemma search_scored:
  assumes "retriever_index r = Some idx" and "preprocess query lang \<noteq> []"
    and "score_candidates r idx (preprocess query lang)
           (iter_order (candidate_docs idx (preprocess query lang))) = Inr scored"
  shows "\<exists>resp. search r iter_order query top_k lang = Inr resp \<and> total_results resp = length scored"
  using assms by (simp add: search_def Let_def)

lemma built_metadata:
  assumes "distinct (map fst docs)" and "(d, toks, md) \<in> set docs"
  shows "map_of (documents (finalize (build docs))) d = Some md"
proof -
  have "distinct (map fst (map (\<lambda>(d, toks, md). (d, md)) docs))"
    using assms(1) by (simp add: comp_def case_prod_unfold)
  moreover have "(d, md) \<in> set (map (\<lambda>(d, toks, md). (d, md)) docs)"
    using assms(2) by force
  ultimately have "map_of (map (\<lambda>(d, toks, md). (d, md)) docs) d = Some md"
    by (rule map_of_is_SomeI)
  then show ?thesis by (simp add: build_documents[OF assms(1)])
qed

lemma candidates_all_scored_aux:
  assumes "distinct (map fst docs)" and "valid_params r"
    and "retriever_index r = Some (finalize (build docs))"
    and "list_all (\<lambda>(d, toks, md). has_keys md) docs"
    and "set_iteration iter_order"
  shows "(\<forall>t. get_postings (finalize (build docs)) t \<noteq> [] \<longrightarrow>
             1 \<le> get_document_frequency (finalize (build docs)) t
           \<and> get_document_frequency (finalize (build docs)) t \<le> doc_count (finalize (build docs))
           \<and> (\<exists>x. compute_idf r t = Inr x \<and> 0 < x))
       \<and> (\<forall>d\<in>set (candidate_docs (finalize (build docs)) qt).
             \<exists>s. compute_bm25_score r qt d = Inr s \<and> 0 < s)
       \<and> (\<exists>resp. search r iter_order query top_k lang = Inr resp
             \<and> total_results resp
                 = card (set (candidate_docs (finalize (build docs)) (preprocess query lang))))"
proof -
  let ?idx = "finalize (build docs)"
  have p1: "1 \<le> get_document_frequency ?idx t
           \<and> get_document_frequency ?idx t \<le> doc_count ?idx
           \<and> (\<exists>x. compute_idf r t = Inr x \<and> 0 < x)" if "get_postings ?idx t \<noteq> []" for t
  proof -
    from that have "filter (\<lambda>(d, toks, md). t \<in> set toks) docs \<noteq> []"
      by (simp add: build_postings)
    then have df1: "1 \<le> get_document_frequency ?idx t" by (simp add: build_df Suc_le_eq)
    have dfle: "get_document_frequency ?idx t \<le> doc_count ?idx" by (simp add: build_df_le)
    from idf_spec_pos[OF df1 dfle] compute_idf_eq[OF assms(3), of t] df1 dfle
    show ?thesis by blast
  qed
  have p2: "\<exists>s. compute_bm25_score r qt' d = Inr s \<and> 0 < s"
    if "d \<in> set (candidate_docs ?idx qt')" for d qt'
    using built_candidate_score[OF assms(1,2,3) that] .
  have p3: "\<exists>resp. search r iter_order query top_k lang = Inr resp
             \<and> total_results resp = card (set (candidate_docs ?idx (preprocess query lang)))"
  proof (cases "preprocess query lang = []")
    case True
    have "candidate_docs ?idx (preprocess query lang) = []"
      unfolding True by (simp add: candidate_docs_def)
    then show ?thesis using search_empty_query[OF assms(3) True, of iter_order top_k] by simp
  next
    case False
    let ?qt = "preprocess query lang"
    let ?ds = "iter_order (candidate_docs ?idx ?qt)"
    have it: "distinct ?ds" "set ?ds = set (candidate_docs ?idx ?qt)"
      using assms(5) candidate_docs_distinct[of ?idx ?qt] by (simp_all add: set_iteration_def)
    have "\<forall>d\<in>set ?ds. (\<exists>s. compute_bm25_score r ?qt d = Inr s \<and> 0 < s)
                      \<and> (\<exists>md. map_of (documents ?idx) d = Some md \<and> has_keys md)"
    proof
      fix d
      assume "d \<in> set ?ds"
      then have c: "d \<in> set (candidate_docs ?idx ?qt)" using it(2) by simp
      from built_candidate[OF c] obtain toks md where mem: "(d, toks, md) \<in> set docs" by blast
      from assms(4) mem have "has_keys md" by (auto simp: list_all_iff)
      with built_metadata[OF assms(1) mem] p2[OF c]
      show "(\<exists>s. compute_bm25_score r ?qt d = Inr s \<and> 0 < s)
            \<and> (\<exists>md. map_of (documents ?idx) d = Some md \<and> has_keys md)" by blast
    qed
    from score_candidates_all[OF this] obtain scored where
      sc: "score_candidates r ?idx ?qt ?ds = Inr scored" and len: "length scored = length ?ds"
      by blast
    have "length ?ds = card (set (candidate_docs ?idx ?qt))"
      using it distinct_card[of ?ds] by simp
    with search_scored[of r ?idx query lang iter_order scored top_k, OF assms(3) False sc] len
    show ?thesis by simp
  qed
  from p1 p2 p3 show ?thesis by blast
qed

lemma example_keys: "list_all (\<lambda>(d, toks, md). has_keys md) example_docs"
  by (simp add: example_docs_def has_keys_def)

lemma set_iteration_id: "set_iteration (\<lambda>xs. xs)"
  by (simp add: set_iteration_def)

text \<open>
  C10, as the code has it: on a finalized index built by \<open>add_document\<close>, every
  indexed term has \<open>1 \<le> df \<le> N\<close> and a strictly positive \<open>compute_idf\<close>. When
  the document ids are pairwise distinct and the tunables are in the range of BM25,
  every candidate document of a query gets a strictly positive score; and when
  moreover every metadata has the keys \<open>search\<close> reads, \<open>search\<close> returns with
  \<open>total_results\<close> the number of candidate documents, so that the branch for
  scores that are not positive drops nothing.
\<close>

theorem candidates_all_scored:
  assumes "retriever_index r = Some (finalize (build docs))"
  shows "(\<forall>t. get_postings (finalize (build docs)) t \<noteq> [] \<longrightarrow>
             1 \<le> get_document_frequency (finalize (build docs)) t
           \<and> get_document_frequency (finalize (build docs)) t \<le> doc_count (finalize (build docs))
           \<and> (\<exists>x. compute_idf r t = Inr x \<and> 0 < x))
       \<and> (distinct (map fst docs) \<and> valid_params r \<longrightarrow>
            (\<forall>d\<in>set (candidate_docs (finalize (build docs)) qt).
               \<exists>s. compute_bm25_score r qt d = Inr s \<and> 0 < s))
       \<and> (distinct (map fst docs) \<and> valid_params r
            \<and> list_all (\<lambda>(d, toks, md). has_keys md) docs \<and> set_iteration iter_order \<longrightarrow>
            (\<exists>resp. search r iter_order query top_k lang = Inr resp
               \<and> total_results resp
                   = card (set (candidate_docs (finalize (build docs)) (preprocess query lang)))))"
proof -
  let ?idx = "finalize (build docs)"
  have p1: "1 \<le> get_document_frequency ?idx t
           \<and> get_document_frequency ?idx t \<le> doc_count ?idx
           \<and> (\<exists>x. compute_idf r t = Inr x \<and> 0 < x)" if "get_postings ?idx t \<noteq> []" for t
  proof -
    from that have "filter (\<lambda>(d, toks, md). t \<in> set toks) docs \<noteq> []"
      by (simp add: build_postings)
    then have df1: "1 \<le> get_document_frequency ?idx t" by (simp add: build_df Suc_le_eq)
    have dfle: "get_document_frequency ?idx t \<le> doc_count ?idx" by (simp add: build_df_le)
    from idf_spec_pos[OF df1 dfle] compute_idf_eq[OF assms, of t] df1 dfle
    show ?thesis by blast
  qed
  have p2: "\<forall>d\<in>set (candidate_docs ?idx qt). \<exists>s. compute_bm25_score r qt d = Inr s \<and> 0 < s"
    if "distinct (map fst docs) \<and> valid_params r"
    using built_candidate_score[of docs r _ qt] that assms by blast
  have p3: "\<exists>resp. search r iter_order query top_k lang = Inr resp
               \<and> total_results resp = card (set (candidate_docs ?idx (preprocess query lang)))"
    if "distinct (map fst docs) \<and> valid_params r
        \<and> list_all (\<lambda>(d, toks, md). has_keys md) docs \<and> set_iteration iter_order"
    using candidates_all_scored_aux[of docs r iter_order qt query top_k lang] that assms by blast
  from p1 p2 p3 show ?thesis by blast
qed

theorem candidates_all_scored_witness:
  "retriever_index example_retriever = Some (finalize (build example_docs))
   \<and> distinct (map fst example_docs) \<and> valid_params example_retriever
   \<and> list_all (\<lambda>(d, toks, md). has_keys md) example_docs
   \<and> set_iteration (\<lambda>xs. xs)
   \<and> (\<exists>resp. search example_retriever (\<lambda>xs. xs) (PStr (u ''cheap car'')) 10 ''en'' = Inr resp
         \<and> total_results resp
             = card (set (candidate_docs (finalize (build example_docs))
                            (preprocess (PStr (u ''cheap car'')) ''en''))))"
  using candidates_all_scored[OF example_index, of "[]" "\<lambda>xs. xs" "PStr (u ''cheap car'')" 10 "''en''"]
    example_distinct example_valid example_index example_keys set_iteration_id
  by blast

section \<open>The engine at concrete inputs\<close>

lemma is_space_32: "is_space 32 = True"
  by (simp add: is_space_def)

lemma is_space_visible: "33 \<le> c \<Longrightarrow> c \<le> 132 \<Longrightarrow> is_space c = False"
  by (simp add: is_space_def)

lemma lang_en: "(''en'' = ''auto'') = False" "(''en'' = ''bn'') = False"
  by simp_all

lemma u_https_rocks: "u ''HTTPS rocks'' = [72, 84, 84, 80, 83, 32, 114, 111, 99, 107, 115]"
  by (simp add: u_def)

lemma u_words:
  "u ''https'' = [104, 116, 116, 112, 115]"
  "u ''rocks'' = [114, 111, 99, 107, 115]"
  "u ''car'' = [99, 97, 114]"
  by (simp_all add: u_def)

lemma strip_urls_upper:
  "strip_urls [72, 84, 84, 80, 83, 32, 114, 111, 99, 107, 115]
     = [72, 84, 84, 80, 83, 32, 114, 111, 99, 107, 115]"
  by (simp add: url_at_def starts_with_def u_def)

lemma strip_emails_upper:
  "strip_emails [72, 84, 84, 80, 83, 32, 114, 111, 99, 107, 115]
     = [72, 84, 84, 80, 83, 32, 114, 111, 99, 107, 115]"
  by (simp add: email_at_def is_space_32 is_space_visible)

lemma keep_upper:
  "map (\<lambda>c. if is_ascii_alnum c \<or> is_space c then c else 32)
       [72, 84, 84, 80, 83, 32, 114, 111, 99, 107, 115]
     = [72, 84, 84, 80, 83, 32, 114, 111, 99, 107, 115]"
  by (simp add: is_ascii_alnum_def is_space_32)

lemma lower_upper:
  "py_lower [72, 84, 84, 80, 83, 32, 114, 111, 99, 107, 115]
     = [104, 116, 116, 112, 115, 32, 114, 111, 99, 107, 115]"
  by (simp add: py_lower_def)

lemma split_https_rocks:
  "py_split [104, 116, 116, 112, 115, 32, 114, 111, 99, 107, 115]
     = [[104, 116, 116, 112, 115], [114, 111, 99, 107, 115]]"
  by (simp add: is_space_32 is_space_visible)

lemma strip_words:
  "py_strip [104, 116, 116, 112, 115] = [104, 116, 116, 112, 115]"
  "py_strip [114, 111, 99, 107, 115] = [114, 111, 99, 107, 115]"
  "py_strip [99, 97, 114] = [99, 97, 114]"
  by (simp_all add: py_strip_def is_space_visible)

lemma tokenize_upper:
  "tokenize (u ''HTTPS rocks'') ''en'' = [[104, 116, 116, 112, 115], [114, 111, 99, 107, 115]]"
  apply (simp only: tokenize_def Let_def lang_en if_False u_https_rocks strip_urls_upper
      strip_emails_upper keep_upper lower_upper split_https_rocks)
  apply (simp add: strip_words)
  done

lemma not_stopwords:
  "[104, 116, 116, 112, 115] \<notin> set english_stopwords"
  "[114, 111, 99, 107, 115] \<notin> set english_stopwords"
  "[99, 97, 114] \<notin> set english_stopwords"
  by (simp_all add: english_stopwords_def u_def)

lemma remove_stopwords_first:
  "remove_stopwords [[104, 116, 116, 112, 115], [114, 111, 99, 107, 115]] ''en''
     = [[104, 116, 116, 112, 115], [114, 111, 99, 107, 115]]"
  apply (simp only: remove_stopwords_def Let_def lang_en if_False filter.simps not_stopwords)
  apply simp
  done

lemma preprocess_first:
  "preprocess (PStr (u ''HTTPS rocks'')) ''en'' = [u ''https'', u ''rocks'']"
proof -
  have "u ''HTTPS rocks'' \<noteq> []" by (simp add: u_https_rocks)
  then show ?thesis
    by (simp add: preprocess_def tokenize_upper remove_stopwords_first u_words)
qed

lemma join_https_rocks:
  "join_space [u ''https'', u ''rocks''] = [104, 116, 116, 112, 115, 32, 114, 111, 99, 107, 115]"
  by (simp add: u_words)

lemma strip_urls_lower:
  "strip_urls [104, 116, 116, 112, 115, 32, 114, 111, 99, 107, 115] = [32, 114, 111, 99, 107, 115]"
  by (simp add: url_at_def starts_with_def u_def is_space_32 is_space_visible)

lemma strip_emails_lower:
  "strip_emails [32, 114, 111, 99, 107, 115] = [32, 114, 111, 99, 107, 115]"
  by (simp add: email_at_def is_space_32 is_space_visible)

lemma keep_lower:
  "map (\<lambda>c. if is_ascii_alnum c \<or> is_space c then c else 32) [32, 114, 111, 99, 107, 115]
     = [32, 114, 111, 99, 107, 115]"
  by (simp add: is_ascii_alnum_def is_space_32)

lemma lower_lower: "py_lower [32, 114, 111, 99, 107, 115] = [32, 114, 111, 99, 107, 115]"
  by (simp add: py_lower_def)

lemma split_rocks: "py_split [32, 114, 111, 99, 107, 115] = [[114, 111, 99, 107, 115]]"
  by (simp add: is_space_32 is_space_visible)

lemma tokenize_second:
  "tokenize [104, 116, 116, 112, 115, 32, 114, 111, 99, 107, 115] ''en'' = [[114, 111, 99, 107, 115]]"
  apply (simp only: tokenize_def Let_def lang_en if_False strip_urls_lower
      strip_emails_lower keep_lower lower_lower split_rocks)
  apply (simp add: strip_words)
  done

lemma remove_stopwords_second:
  "remove_stopwords [[114, 111, 99, 107, 115]] ''en'' = [[114, 111, 99, 107, 115]]"
  apply (simp only: remove_stopwords_def Let_def lang_en if_False filter.simps not_stopwords)
  apply simp
  done

lemma preprocess_second:
  "preprocess (PStr (join_space [u ''https'', u ''rocks''])) ''en'' = [u ''rocks'']"
  unfolding join_https_rocks
  by (simp add: preprocess_def tokenize_second remove_stopwords_second u_words)

text \<open>
  C8, at the input where the code departs from it: the text \<open>HTTPS rocks\<close> with the
  hint \<open>en\<close> preprocesses to the tokens \<open>https\<close> and \<open>rocks\<close>, and preprocessing
  their space-joined rendering \<open>https rocks\<close> with the same hint gives \<open>rocks\<close>
  alone: the URL pattern is matched case-sensitively before the text is lowercased.
\<close>

theorem preprocess_not_idempotent:
  "preprocess (PStr (u ''HTTPS rocks'')) ''en'' = [u ''https'', u ''rocks'']
   \<and> preprocess (PStr (join_space (preprocess (PStr (u ''HTTPS rocks'')) ''en''))) ''en''
       = [u ''rocks'']"
  by (simp only: preprocess_first preprocess_second simp_thms)

lemma strip_urls_car: "strip_urls [99, 97, 114] = [99, 97, 114]"
  by (simp add: url_at_def starts_with_def u_def)

lemma strip_emails_car: "strip_emails [99, 97, 114] = [99, 97, 114]"
  by (simp add: email_at_def is_space_visible)

lemma keep_car:
  "map (\<lambda>c. if is_ascii_alnum c \<or> is_space c then c else 32) [99, 97, 114] = [99, 97, 114]"
  by (simp add: is_ascii_alnum_def)

lemma lower_car: "py_lower [99, 97, 114] = [99, 97, 114]"
  by (simp add: py_lower_def)

lemma split_car: "py_split [99, 97, 114] = [[99, 97, 114]]"
  by (simp add: is_space_visible)

lemma tokenize_car: "tokenize [99, 97, 114] ''en'' = [[99, 97, 114]]"
  apply (simp only: tokenize_def Let_def lang_en if_False strip_urls_car strip_emails_car
      keep_car lower_car split_car)
  apply (simp add: strip_words)
  done

lemma remove_stopwords_car: "remove_stopwords [[99, 97, 114]] ''en'' = [[99, 97, 114]]"
  apply (simp only: remove_stopwords_def Let_def lang_en if_False filter.simps not_stopwords)
  apply simp
  done

lemma preprocess_car: "preprocess (PStr (u ''car'')) ''en'' = [u ''car'']"
  by (simp add: preprocess_def u_words tokenize_car remove_stopwords_car)

lemma score_terms_zero_avg:
  assumes "retriever_index r = Some idx"
    and "1 \<le> get_document_frequency idx t" "get_document_frequency idx t \<le> doc_count idx"
    and "find_tf (get_postings idx t) d \<noteq> 0"
  shows "score_terms r idx d dl 0 (t # ts) s = Inl ZeroDivisionError"
proof -
  have "0 < idf_spec (doc_count idx) (get_document_frequency idx t)"
    using assms(2,3) by (rule idf_spec_pos)
  then show ?thesis
    using compute_idf_eq[OF assms(1), of t] assms(4) by (simp add: py_div_def)
qed

lemma example_car_postings:
  "get_postings (build example_docs) (u ''car'') = [(''en_0'', 1), (''en_1'', 1)]"
  by (simp add: build_postings example_docs_def u_def)

lemma example_car_df: "get_document_frequency (build example_docs) (u ''car'') = 2"
  by (simp add: build_df example_docs_def u_def)

lemma example_count: "doc_count (build example_docs) = 2"
  by (simp add: build_doc_count example_docs_def)

lemma example_len: "get_or (doc_lengths (build example_docs)) 0 ''en_0'' = 4"
  unfolding doc_len_build[OF example_distinct]
  by (simp add: corpus_doc_len_def example_docs_def)

lemma unfinalized_score:
  "compute_bm25_score unfinalized_retriever [u ''car''] ''en_0'' = Inl ZeroDivisionError"
proof -
  have idx: "retriever_index unfinalized_retriever = Some (build example_docs)"
    by (simp add: unfinalized_retriever_def)
  have "score_terms unfinalized_retriever (build example_docs) ''en_0'' 4 0 [u ''car''] 0
          = Inl ZeroDivisionError"
    by (rule score_terms_zero_avg[OF idx])
       (simp_all add: example_car_df example_count example_car_postings)
  then show ?thesis
    by (simp add: compute_bm25_score_def idx example_len build_avg)
qed

lemma example_car_candidates:
  "candidate_docs (build example_docs) [u ''car''] = [''en_0'', ''en_1'']"
  by (simp add: candidate_docs_def example_car_postings set_add_def)

text \<open>
  C1, at the input where the code departs from it: on an index that holds
  documents and has not been finalized the average document length is still 0, and
  \<open>search\<close> for a term of a document raises \<open>ZeroDivisionError\<close> instead of
  returning an empty result. On an empty index the same search returns no results
  and \<open>total_results = 0\<close>, and with no index loaded it raises \<open>ValueError\<close>.
\<close>

theorem search_unfinalized_raises:
  "search unfinalized_retriever (\<lambda>xs. xs) (PStr (u ''car'')) 10 ''en'' = Inl ZeroDivisionError
   \<and> search empty_retriever (\<lambda>xs. xs) (PStr (u ''car'')) 10 ''en''
       = Inr \<lparr>resp_query = PStr (u ''car''), resp_query_terms = Some [u ''car''],
              results = [], total_results = 0\<rparr>
   \<and> search (BM25Retriever_init 1.5 0.75) (\<lambda>xs. xs) (PStr (u ''car'')) 10 ''en'' = Inl ValueError"
proof -
  have a: "search unfinalized_retriever (\<lambda>xs. xs) (PStr (u ''car'')) 10 ''en'' = Inl ZeroDivisionError"
    by (simp add: search_def preprocess_car example_car_candidates unfinalized_score
        unfinalized_retriever_def[THEN arg_cong, of retriever_index])
  have "candidate_docs InvertedIndex_init [u ''car''] = []"
    by (simp add: candidate_docs_def)
  then have b: "search empty_retriever (\<lambda>xs. xs) (PStr (u ''car'')) 10 ''en''
       = Inr \<lparr>resp_query = PStr (u ''car''), resp_query_terms = Some [u ''car''],
              results = [], total_results = 0\<rparr>"
    by (simp add: search_def preprocess_car empty_retriever_def slice_to_def annotate_def)
  have c: "search (BM25Retriever_init 1.5 0.75) (\<lambda>xs. xs) (PStr (u ''car'')) 10 ''en'' = Inl ValueError"
    by (simp add: search_def BM25Retriever_init_def)
  from a b c show ?thesis by (simp only: simp_thms)
qed

lemma tie_distinct: "distinct (map fst tie_docs)"
  by (simp add: tie_docs_def)

lemma tie_index: "retriever_index tie_retriever = Some (finalize (build tie_docs))"
  by (simp add: tie_retriever_def)

lemma tie_valid: "valid_params tie_retriever"
  by (simp add: tie_retriever_def BM25Retriever_init_def valid_params_def)

lemma tie_params: "k1 tie_retriever = 3 / 2" "b tie_retriever = 3 / 4"
  by (simp_all add: tie_retriever_def BM25Retriever_init_def)

lemma tie_postings:
  "get_postings (build tie_docs) (u ''car'') = [(''en_0'', 1), (''en_1'', 1)]"
  by (simp add: build_postings tie_docs_def)

lemma tie_df: "get_document_frequency (build tie_docs) (u ''car'') = 2"
  by (simp add: build_df tie_docs_def)

lemma tie_count: "doc_count (build tie_docs) = 2"
  by (simp add: build_doc_count tie_docs_def)

lemma tie_len:
  "get_or (doc_lengths (build tie_docs)) 0 ''en_0'' = 1"
  "get_or (doc_lengths (build tie_docs)) 0 ''en_1'' = 1"
  unfolding doc_len_build[OF tie_distinct]
  by (simp_all add: corpus_doc_len_def tie_docs_def)

lemma tie_avg: "avg_doc_length (finalize (build tie_docs)) = 1"
proof -
  have "tie_docs \<noteq> []" by (simp add: tie_docs_def)
  from avg_build[OF tie_distinct this] show ?thesis
    by (simp add: corpus_avg_len_def tie_docs_def)
qed

lemma tie_idf: "idf_spec 2 2 = ln (6 / 5)"
  by (simp add: idf_spec_def)

lemma ln_six_fifths: "0 < ln (6 / 5 :: real)" "ln (6 / 5 :: real) \<noteq> 0"
  by simp_all

lemma tie_term_score:
  "term_score tie_retriever (finalize (build tie_docs)) ''en_0'' (Suc 0) 1 (u ''car'') = ln (6 / 5)"
  "term_score tie_retriever (finalize (build tie_docs)) ''en_1'' (Suc 0) 1 (u ''car'') = ln (6 / 5)"
  by (simp_all add: term_score_def tie_df tie_count tie_postings tie_idf tie_params ln_six_fifths)

lemma tie_score:
  "compute_bm25_score tie_retriever [u ''car''] ''en_0'' = Inr (ln (6 / 5))"
  "compute_bm25_score tie_retriever [u ''car''] ''en_1'' = Inr (ln (6 / 5))"
  using compute_bm25_score_closed[OF tie_index tie_valid, of "''en_0''" "[u ''car'']"]
    compute_bm25_score_closed[OF tie_index tie_valid, of "''en_1''" "[u ''car'']"]
  by (simp_all add: tie_len tie_avg tie_term_score)

lemma tie_candidates:
  "candidate_docs (finalize (build tie_docs)) [u ''car''] = [''en_0'', ''en_1'']"
  by (simp add: candidate_docs_def tie_postings set_add_def)

lemma tie_documents:
  "map_of (documents (build tie_docs)) ''en_0''
     = Some [(''title'', PStr (u ''A'')), (''url'', PStr (u ''a'')), (''language'', PStr (u ''en'')), (''original_index'', PInt 0)]"
  "map_of (documents (build tie_docs)) ''en_1''
     = Some [(''title'', PStr (u ''B'')), (''url'', PStr (u ''b'')), (''language'', PStr (u ''en'')), (''original_index'', PInt 1)]"
  using built_metadata[OF tie_distinct, of "''en_0''"] built_metadata[OF tie_distinct, of "''en_1''"]
  by (simp_all add: tie_docs_def)

lemma tie_scored:
  "score_candidates tie_retriever (finalize (build tie_docs)) [u ''car''] [''en_1'', ''en_0'']
     = Inr [\<lparr>hit_doc_id = ''en_1'', hit_score = ln (6 / 5), hit_title = PStr (u ''B''),
              hit_url = PStr (u ''b''), hit_language = PStr (u ''en'')\<rparr>,
            \<lparr>hit_doc_id = ''en_0'', hit_score = ln (6 / 5), hit_title = PStr (u ''A''),
              hit_url = PStr (u ''a''), hit_language = PStr (u ''en'')\<rparr>]"
  by (simp add: tie_score tie_documents)

lemma tie_annotate:
  "annotate [\<lparr>hit_doc_id = ''en_1'', hit_score = ln (6 / 5), hit_title = PStr (u ''B''),
              hit_url = PStr (u ''b''), hit_language = PStr (u ''en'')\<rparr>,
            \<lparr>hit_doc_id = ''en_0'', hit_score = ln (6 / 5), hit_title = PStr (u ''A''),
              hit_url = PStr (u ''a''), hit_language = PStr (u ''en'')\<rparr>]
     = [tie_hit ''en_1'' ''B'' ''b'', tie_hit ''en_0'' ''A'' ''a'']"
  "annotate [\<lparr>hit_doc_id = ''en_1'', hit_score = ln (6 / 5), hit_title = PStr (u ''B''),
              hit_url = PStr (u ''b''), hit_language = PStr (u ''en'')\<rparr>]
     = [tie_hit ''en_1'' ''B'' ''b'']"
  by (simp_all add: annotate_def tie_hit_def scored_doc.defs Let_def)

lemma rev_pair: "rev [''en_0'', ''en_1''] = [''en_1'', ''en_0'']"
  by simp

lemma tie_search:
  "search tie_retriever rev (PStr (u ''car'')) 10 ''en''
     = Inr \<lparr>resp_query = PStr (u ''car''), resp_query_terms = Some [u ''car''],
            results = [tie_hit ''en_1'' ''B'' ''b'', tie_hit ''en_0'' ''A'' ''a''],
            total_results = 2\<rparr>"
  "search tie_retriever rev (PStr (u ''car'')) (- 1) ''en''
     = Inr \<lparr>resp_query = PStr (u ''car''), resp_query_terms = Some [u ''car''],
            results = [tie_hit ''en_1'' ''B'' ''b''],
            total_results = 2\<rparr>"
  unfolding search_def tie_index option.case Let_def preprocess_car tie_candidates rev_pair
    tie_scored sum.case
  by (simp_all add: slice_to_def tie_annotate)

lemma set_iteration_rev: "set_iteration rev"
  by (simp add: set_iteration_def)

text \<open>
  C2 as stated fails on the tie-break and on the bound. The documents \<open>en_0\<close> and
  \<open>en_1\<close> enter the candidate set in this order and score the same; when the
  loop visits the set in the other order (as a Python set of strings may), the
  results list \<open>en_1\<close> before \<open>en_0\<close>. With \<open>top_k = -1\<close> the slice keeps all
  but the last entry: one result, more than \<open>top_k\<close>.
\<close>

theorem search_tie_order_counterexample:
  "set_iteration rev
   \<and> candidate_docs (finalize (build tie_docs)) [u ''car''] = [''en_0'', ''en_1'']
   \<and> search tie_retriever rev (PStr (u ''car'')) 10 ''en''
       = Inr \<lparr>resp_query = PStr (u ''car''), resp_query_terms = Some [u ''car''],
              results = [tie_hit ''en_1'' ''B'' ''b'', tie_hit ''en_0'' ''A'' ''a''],
              total_results = 2\<rparr>
   \<and> hit_score (tie_hit ''en_1'' ''B'' ''b'') = hit_score (tie_hit ''en_0'' ''A'' ''a'')
   \<and> search tie_retriever rev (PStr (u ''car'')) (- 1) ''en''
       = Inr \<lparr>resp_query = PStr (u ''car''), resp_query_terms = Some [u ''car''],
              results = [tie_hit ''en_1'' ''B'' ''b''],
              total_results = 2\<rparr>
   \<and> \<not> int (length [tie_hit ''en_1'' ''B'' ''b'']) \<le> - 1"
proof -
  have "hit_score (tie_hit ''en_1'' ''B'' ''b'') = hit_score (tie_hit ''en_0'' ''A'' ''a'')"
    by (simp add: tie_hit_def)
  moreover have "\<not> int (length [tie_hit ''en_1'' ''B'' ''b'']) \<le> - 1" by simp
  moreover have "candidate_docs (finalize (build tie_docs)) [u ''car''] = [''en_0'', ''en_1'']"
    by (simp add: candidate_docs_def tie_postings set_add_def)
  ultimately show ?thesis using set_iteration_rev tie_search by (simp only: simp_thms)
qed

theorem search_results_ranked_witness:
  "set_iteration rev
   \<and> retriever_index tie_retriever = Some (finalize (build tie_docs))
   \<and> search tie_retriever rev (PStr (u ''car'')) 10 ''en''
       = Inr \<lparr>resp_query = PStr (u ''car''), resp_query_terms = Some [u ''car''],
              results = [tie_hit ''en_1'' ''B'' ''b'', tie_hit ''en_0'' ''A'' ''a''],
              total_results = 2\<rparr>
   \<and> sorted_wrt (\<lambda>x y. hit_score y \<le> hit_score x)
         [tie_hit ''en_1'' ''B'' ''b'', tie_hit ''en_0'' ''A'' ''a'']
   \<and> length [tie_hit ''en_1'' ''B'' ''b'', tie_hit ''en_0'' ''A'' ''a''] \<le> nat 10"
proof -
  let ?R = "\<lparr>resp_query = PStr (u ''car''), resp_query_terms = Some [u ''car''],
              results = [tie_hit ''en_1'' ''B'' ''b'', tie_hit ''en_0'' ''A'' ''a''],
              total_results = 2\<rparr>"
  from search_results_ranked[OF set_iteration_rev tie_index tie_search(1)]
  have "sorted_wrt (\<lambda>x y. hit_score y \<le> hit_score x) (results ?R)"
    and "0 \<le> (10::int) \<longrightarrow> length (results ?R) \<le> nat 10"
    by blast+
  then show ?thesis using set_iteration_rev tie_index tie_search(1) by simp
qed

lemma u_car_bus: "u ''car'' \<noteq> u ''bus''" "u ''bus'' \<noteq> u ''car''"
  by (simp_all add: u_def)

lemma negative_index: "retriever_index negative_retriever = Some (finalize (build negative_docs))"
  by (simp add: negative_retriever_def)

lemma negative_params: "k1 negative_retriever = - (3 / 2)" "b negative_retriever = 0"
  by (simp_all add: negative_retriever_def BM25Retriever_init_def)

lemma negative_distinct: "distinct (map fst negative_docs)"
  by (simp add: negative_docs_def)

lemma negative_postings: "get_postings (build negative_docs) (u ''car'') = [(''en_0'', 2)]"
  by (simp add: build_postings negative_docs_def u_car_bus)

lemma negative_df: "get_document_frequency (build negative_docs) (u ''car'') = 1"
  by (simp add: build_df negative_docs_def u_car_bus)

lemma negative_count: "doc_count (build negative_docs) = 2"
  by (simp add: build_doc_count negative_docs_def)

lemma negative_len: "get_or (doc_lengths (build negative_docs)) 0 ''en_0'' = 2"
  unfolding doc_len_build[OF negative_distinct]
  by (simp add: corpus_doc_len_def negative_docs_def)

lemma negative_avg: "avg_doc_length (finalize (build negative_docs)) = 3 / 2"
proof -
  have "negative_docs \<noteq> []" by (simp add: negative_docs_def)
  from avg_build[OF negative_distinct this] show ?thesis
    by (simp add: corpus_avg_len_def negative_docs_def)
qed

lemma idf_two_one: "idf_spec 2 (Suc 0) = ln 2"
  by (simp add: idf_spec_def)

lemma negative_idf: "compute_idf negative_retriever (u ''car'') = Inr (ln 2)"
  using compute_idf_eq[OF negative_index, of "u ''car''"]
  by (simp add: negative_df negative_count idf_two_one)

lemma negative_score:
  "compute_bm25_score negative_retriever [u ''car''] ''en_0'' = Inr (- (2 * ln 2))"
  by (simp add: compute_bm25_score_def negative_index negative_len negative_avg negative_idf
      negative_postings negative_params py_div_def)

lemma negative_candidates:
  "candidate_docs (finalize (build negative_docs)) [u ''car''] = [''en_0'']"
  by (simp add: candidate_docs_def negative_postings set_add_def)

lemma negative_scored:
  "score_candidates negative_retriever (finalize (build negative_docs)) [u ''car''] [''en_0'']
     = Inr []"
  by (simp add: negative_score)

lemma negative_search:
  "search negative_retriever (\<lambda>xs. xs) (PStr (u ''car'')) 10 ''en''
     = Inr \<lparr>resp_query = PStr (u ''car''), resp_query_terms = Some [u ''car''],
            results = [], total_results = 0\<rparr>"
  unfolding search_def negative_index option.case Let_def preprocess_car negative_candidates
    negative_scored sum.case
  by (simp add: slice_to_def annotate_def)

lemma duplicate_index:
  "retriever_index duplicate_retriever = Some (finalize (build duplicate_docs))"
  by (simp add: duplicate_retriever_def)

lemma duplicate_params: "k1 duplicate_retriever = 3 / 2" "b duplicate_retriever = 3 / 4"
  by (simp_all add: duplicate_retriever_def BM25Retriever_init_def)

lemma duplicate_postings: "get_postings (build duplicate_docs) (u ''car'') = [(''d'', 1)]"
  by (simp add: build_postings duplicate_docs_def u_car_bus)

lemma duplicate_df: "get_document_frequency (build duplicate_docs) (u ''car'') = 1"
  by (simp add: build_df duplicate_docs_def u_car_bus)

lemma duplicate_count: "doc_count (build duplicate_docs) = 3"
  by (simp add: build_doc_count duplicate_docs_def)

lemma duplicate_lengths: "doc_lengths (build duplicate_docs) = [(''d'', 0), (''e'', 1)]"
  by (simp add: build_def add_all_def duplicate_docs_def add_document_fields)

lemma duplicate_avg: "avg_doc_length (finalize (build duplicate_docs)) = 1 / 3"
  by (simp add: finalize_def duplicate_count duplicate_lengths)

lemma duplicate_score:
  "compute_bm25_score duplicate_retriever [u ''car''] ''d'' = Inr 0"
  by (simp add: compute_bm25_score_def duplicate_index duplicate_lengths get_or_def)

lemma duplicate_formula:
  "0 < bm25_term_spec (3 / 2) (3 / 4) (idf_spec 3 1) 1 0 (1 / 3)"
  by (simp add: bm25_term_spec_def idf_spec_def)

lemma duplicate_candidates:
  "candidate_docs (finalize (build duplicate_docs)) [u ''car''] = [''d'']"
  by (simp add: candidate_docs_def duplicate_postings set_add_def)

lemma duplicate_scored:
  "score_candidates duplicate_retriever (finalize (build duplicate_docs)) [u ''car''] [''d'']
     = Inr []"
  by (simp add: duplicate_score)

lemma duplicate_search:
  "search duplicate_retriever (\<lambda>xs. xs) (PStr (u ''car'')) 10 ''en''
     = Inr \<lparr>resp_query = PStr (u ''car''), resp_query_terms = Some [u ''car''],
            results = [], total_results = 0\<rparr>"
  unfolding search_def duplicate_index option.case Let_def preprocess_car duplicate_candidates
    duplicate_scored sum.case
  by (simp add: slice_to_def annotate_def)

lemma no_url_index: "retriever_index no_url_retriever = Some (finalize (build no_url_docs))"
  by (simp add: no_url_retriever_def)

lemma no_url_params: "k1 no_url_retriever = 3 / 2" "b no_url_retriever = 3 / 4"
  by (simp_all add: no_url_retriever_def BM25Retriever_init_def)

lemma no_url_distinct: "distinct (map fst no_url_docs)"
  by (simp add: no_url_docs_def)

lemma no_url_postings: "get_postings (build no_url_docs) (u ''car'') = [(''en_0'', 1)]"
  by (simp add: build_postings no_url_docs_def)

lemma no_url_df: "get_document_frequency (build no_url_docs) (u ''car'') = 1"
  by (simp add: build_df no_url_docs_def)

lemma no_url_count: "doc_count (build no_url_docs) = 1"
  by (simp add: build_doc_count no_url_docs_def)

lemma no_url_len: "get_or (doc_lengths (build no_url_docs)) 0 ''en_0'' = 1"
  unfolding doc_len_build[OF no_url_distinct]
  by (simp add: corpus_doc_len_def no_url_docs_def)

lemma no_url_avg: "avg_doc_length (finalize (build no_url_docs)) = 1"
proof -
  have "no_url_docs \<noteq> []" by (simp add: no_url_docs_def)
  from avg_build[OF no_url_distinct this] show ?thesis
    by (simp add: corpus_avg_len_def no_url_docs_def)
qed

lemma idf_one_one: "idf_spec (Suc 0) (Suc 0) = ln (4 / 3)"
  by (simp add: idf_spec_def)

lemma no_url_idf: "compute_idf no_url_retriever (u ''car'') = Inr (ln (4 / 3))"
  using compute_idf_eq[OF no_url_index, of "u ''car''"]
  by (simp add: no_url_df no_url_count idf_one_one)

lemma no_url_score:
  "compute_bm25_score no_url_retriever [u ''car''] ''en_0'' = Inr (ln (4 / 3))"
  by (simp add: compute_bm25_score_def no_url_index no_url_len no_url_avg no_url_idf
      no_url_postings no_url_params py_div_def)

lemma no_url_candidates:
  "candidate_docs (finalize (build no_url_docs)) [u ''car''] = [''en_0'']"
  by (simp add: candidate_docs_def no_url_postings set_add_def)

lemma no_url_documents:
  "map_of (documents (build no_url_docs)) ''en_0''
     = Some [(''title'', PStr (u ''A'')), (''language'', PStr (u ''en''))]"
  using built_metadata[OF no_url_distinct, of "''en_0''"]
  by (simp add: no_url_docs_def)

lemma no_url_scored:
  "score_candidates no_url_retriever (finalize (build no_url_docs)) [u ''car''] [''en_0'']
     = Inl KeyError"
  by (simp add: no_url_score no_url_documents)

lemma no_url_search:
  "search no_url_retriever (\<lambda>xs. xs) (PStr (u ''car'')) 10 ''en'' = Inl KeyError"
  unfolding search_def no_url_index option.case Let_def preprocess_car no_url_candidates
    no_url_scored sum.case
  by simp

lemma half_params:
  "k1 (half_retriever\<lparr>retriever_index := x\<rparr>) = - (1 / 2)"
  "b (half_retriever\<lparr>retriever_index := x\<rparr>) = 0"
  by (simp_all add: half_retriever_def BM25Retriever_init_def)

lemma half_idf:
  "compute_idf (half_retriever\<lparr>retriever_index := Some (finalize (build example_docs))\<rparr>)
     (u ''car'') = Inr (ln (6 / 5))"
  "compute_idf (half_retriever\<lparr>retriever_index :=
       Some (bump_tf (u ''car'') ''en_0'' 2 (finalize (build example_docs)))\<rparr>)
     (u ''car'') = Inr (ln (6 / 5))"
  using compute_idf_eq[of "half_retriever\<lparr>retriever_index := Some (finalize (build example_docs))\<rparr>"
      "finalize (build example_docs)" "u ''car''"]
    compute_idf_eq[of "half_retriever\<lparr>retriever_index :=
       Some (bump_tf (u ''car'') ''en_0'' 2 (finalize (build example_docs)))\<rparr>"
      "bump_tf (u ''car'') ''en_0'' 2 (finalize (build example_docs))" "u ''car''"]
  by (simp_all add: example_car_df example_count tie_idf)

lemma half_score:
  "compute_bm25_score (half_retriever\<lparr>retriever_index := Some (finalize (build example_docs))\<rparr>)
     [u ''car''] ''en_0'' = Inr (ln (6 / 5))"
  by (simp add: compute_bm25_score_def example_len example_avg half_idf ln_six_fifths
      example_car_postings half_params py_div_def)

lemma half_score_bumped:
  "compute_bm25_score
     (half_retriever\<lparr>retriever_index :=
        Some (bump_tf (u ''car'') ''en_0'' 2 (finalize (build example_docs)))\<rparr>)
     [u ''car''] ''en_0'' = Inr (3 / 5 * ln (6 / 5))"
  by (simp add: compute_bm25_score_def example_len example_avg half_idf ln_six_fifths
      bump_tf_postings example_car_postings half_params py_div_def)

text \<open>
  C3 as stated fails outside the range of the tunables and on a repeated id. With
  \<open>k1 = -3/2\<close> and \<open>b = 0\<close>, on a finalized index of two documents with distinct
  ids and average length \<open>3/2\<close>, the document with \<open>car\<close> twice scores
  \<open>-2 ln 2\<close> for the query \<open>car\<close>: a negative total. With the default tunables,
  on the index where the id \<open>d\<close> is added with the token \<open>car\<close> and again with
  no tokens, the posting of \<open>car\<close> gives \<open>d\<close> the frequency 1 and the formula a
  positive value, and \<open>compute_bm25_score\<close> returns 0, the recorded length being 0.
\<close>

theorem compute_bm25_score_counterexample:
  "0 < avg_doc_length (finalize (build negative_docs))
   \<and> compute_bm25_score negative_retriever [u ''car''] ''en_0'' = Inr (- (2 * ln 2))
   \<and> - (2 * ln 2) < (0::real)
   \<and> 0 < avg_doc_length (finalize (build duplicate_docs))
   \<and> find_tf (get_postings (finalize (build duplicate_docs)) (u ''car'')) ''d'' = 1
   \<and> compute_bm25_score duplicate_retriever [u ''car''] ''d'' = Inr 0
   \<and> 0 < bm25_term_spec (k1 duplicate_retriever) (b duplicate_retriever)
             (idf_spec (doc_count (finalize (build duplicate_docs)))
                (get_document_frequency (finalize (build duplicate_docs)) (u ''car'')))
             (real (find_tf (get_postings (finalize (build duplicate_docs)) (u ''car'')) ''d''))
             (real (get_or (doc_lengths (finalize (build duplicate_docs))) 0 ''d''))
             (avg_doc_length (finalize (build duplicate_docs)))"
proof -
  have "0 < bm25_term_spec (k1 duplicate_retriever) (b duplicate_retriever)
             (idf_spec (doc_count (finalize (build duplicate_docs)))
                (get_document_frequency (finalize (build duplicate_docs)) (u ''car'')))
             (real (find_tf (get_postings (finalize (build duplicate_docs)) (u ''car'')) ''d''))
             (real (get_or (doc_lengths (finalize (build duplicate_docs))) 0 ''d''))
             (avg_doc_length (finalize (build duplicate_docs)))"
    using duplicate_formula
    by (simp add: duplicate_params duplicate_count duplicate_df duplicate_postings
        duplicate_lengths duplicate_avg get_or_def)
  moreover have "find_tf (get_postings (finalize (build duplicate_docs)) (u ''car'')) ''d'' = 1"
    by (simp add: duplicate_postings)
  moreover have "- (2 * ln 2) < (0::real)" by simp
  moreover have "0 < avg_doc_length (finalize (build negative_docs))"
    "0 < avg_doc_length (finalize (build duplicate_docs))"
    by (simp_all add: negative_avg duplicate_avg)
  ultimately show ?thesis using negative_score duplicate_score by (simp only: simp_thms)
qed

text \<open>
  C7 as stated fails outside the range of the tunables: with \<open>k1 = -1/2\<close> and
  \<open>b = 0\<close> on the finalized example index, the score of \<open>en_0\<close> for the query
  \<open>car\<close> is \<open>ln (6/5)\<close>, and \<open>3/5 ln (6/5)\<close> once the frequency of \<open>car\<close> in
  the posting of \<open>en_0\<close> is raised from 1 to 3.
\<close>

theorem bm25_monotone_in_tf_counterexample:
  "compute_bm25_score (half_retriever\<lparr>retriever_index := Some (finalize (build example_docs))\<rparr>)
     [u ''car''] ''en_0'' = Inr (ln (6 / 5))
   \<and> compute_bm25_score
        (half_retriever\<lparr>retriever_index :=
           Some (bump_tf (u ''car'') ''en_0'' 2 (finalize (build example_docs)))\<rparr>)
        [u ''car''] ''en_0'' = Inr (3 / 5 * ln (6 / 5))
   \<and> 3 / 5 * ln (6 / 5) < ln (6 / 5 :: real)"
proof -
  have "3 / 5 * ln (6 / 5) < ln (6 / 5 :: real)" using ln_six_fifths(1) by simp
  then show ?thesis using half_score half_score_bumped by (simp only: simp_thms)
qed

text \<open>
  C10 as stated fails on three inputs, each a finalized index built by
  \<open>add_document\<close> with at least one document, searched for \<open>car\<close>. With
  \<open>k1 = -3/2\<close> and \<open>b = 0\<close> the only candidate scores \<open>-2 ln 2\<close> and is dropped:
  \<open>total_results\<close> is 0 for one candidate. With the default tunables and the id
  \<open>d\<close> added a second time with no tokens, the candidate \<open>d\<close> scores 0 and is
  dropped. With metadata that has no \<open>url\<close>, \<open>search\<close> raises \<open>KeyError\<close>.
\<close>

theorem candidates_all_scored_counterexample:
  "preprocess (PStr (u ''car'')) ''en'' = [u ''car'']
   \<and> doc_count (finalize (build negative_docs)) = 2
   \<and> candidate_docs (finalize (build negative_docs)) [u ''car''] = [''en_0'']
   \<and> search negative_retriever (\<lambda>xs. xs) (PStr (u ''car'')) 10 ''en''
       = Inr \<lparr>resp_query = PStr (u ''car''), resp_query_terms = Some [u ''car''],
              results = [], total_results = 0\<rparr>
   \<and> doc_count (finalize (build duplicate_docs)) = 3
   \<and> candidate_docs (finalize (build duplicate_docs)) [u ''car''] = [''d'']
   \<and> search duplicate_retriever (\<lambda>xs. xs) (PStr (u ''car'')) 10 ''en''
       = Inr \<lparr>resp_query = PStr (u ''car''), resp_query_terms = Some [u ''car''],
              results = [], total_results = 0\<rparr>
   \<and> doc_count (finalize (build no_url_docs)) = 1
   \<and> candidate_docs (finalize (build no_url_docs)) [u ''car''] = [''en_0'']
   \<and> search no_url_retriever (\<lambda>xs. xs) (PStr (u ''car'')) 10 ''en'' = Inl KeyError"
proof -
  have "doc_count (finalize (build negative_docs)) = 2"
    "doc_count (finalize (build duplicate_docs)) = 3"
    "doc_count (finalize (build no_url_docs)) = 1"
    by (simp_all add: negative_count duplicate_count no_url_count)
  then show ?thesis
    using preprocess_car negative_candidates negative_search duplicate_candidates
      duplicate_search no_url_candidates no_url_search
    by (simp only: simp_thms)
qed

end
